theory Spec2Isabelle
  imports
    Complex_Main
    "HOL-Library.Word"
    "HOL-Library.Sublist"
    "HOL-Library.Signed_Division"
    "HOL-Library.Char_ord"
    "HOL-Library.List_Lexorder"
    "HOL-Library.Product_Lexorder"
    "HOL-Library.Multiset"
begin

unbundle bit_operations_syntax

chapter \<open>The streaming radio player (Esp32Radio): a shallow embedding\<close>

text \<open>
  The definitions below follow \<^verbatim>\<open>src/unnamed/part_000\<close> (the implementation of the
  class \<^verbatim>\<open>Esp32Radio\<close>). The target is a 32-bit microcontroller: \<^verbatim>\<open>int\<close> and
  \<^verbatim>\<open>size_t\<close> are 32 bits wide, \<^verbatim>\<open>uint8_t\<close> is a byte.
\<close>

type_synonym u8 = "8 word"
type_synonym s16 = "16 word"
type_synonym u32 = "32 word"

section \<open>Definitions\<close>

subsection \<open>The operations of \<^verbatim>\<open>std::string\<close> that the code uses\<close>

text \<open>
  \<^verbatim>\<open>s.find(pat)\<close>: the first position at which \<^verbatim>\<open>pat\<close> occurs in \<^verbatim>\<open>s\<close>;
  \<open>None\<close> stands for \<^verbatim>\<open>std::string::npos\<close>.
\<close>

fun std_find :: "string \<Rightarrow> string \<Rightarrow> nat option" where
  "std_find [] pat = (if pat = [] then Some 0 else None)"
| "std_find (c # cs) pat =
     (if prefix pat (c # cs) then Some 0 else map_option Suc (std_find cs pat))"

text \<open>\<^verbatim>\<open>s.find(ch)\<close> for a single character.\<close>

fun find_char :: "string \<Rightarrow> char \<Rightarrow> nat option" where
  "find_char [] ch = None"
| "find_char (c # cs) ch = (if c = ch then Some 0 else map_option Suc (find_char cs ch))"

text \<open>
  \<^verbatim>\<open>s.rfind(pat, 0)\<close>: the last occurrence of \<^verbatim>\<open>pat\<close> that starts at or before
  position 0, so position 0 is the only candidate.
\<close>

definition rfind0 :: "string \<Rightarrow> string \<Rightarrow> nat option" where
  "rfind0 s pat = (if prefix pat s then Some 0 else None)"

subsection \<open>URL resolution in \<^verbatim>\<open>Esp32Radio::Download\<close>\<close>

definition base_url :: string where
  "base_url = ''https://ai.daongoc.vn/radio/''"

text \<open>Lines 358 to 369: from \<^verbatim>\<open>audio_path\<close> to \<^verbatim>\<open>current_Radio_url_\<close>.\<close>

definition resolve_audio_url :: "string \<Rightarrow> string" where
  "resolve_audio_url audio_path =
     (if rfind0 audio_path ''http://'' = Some 0 \<or> rfind0 audio_path ''https://'' = Some 0
      then audio_path
      else if std_find audio_path ''radio_proxy.php'' \<noteq> None
      then base_url @ audio_path
      else base_url @ audio_path)"

text \<open>Lines 378 to 389: from \<^verbatim>\<open>lyric_path\<close> to \<^verbatim>\<open>current_lyric_url_\<close>.\<close>

definition resolve_lyric_url :: "string \<Rightarrow> string" where
  "resolve_lyric_url lyric_path =
     (if rfind0 lyric_path ''http://'' = Some 0 \<or> rfind0 lyric_path ''https://'' = Some 0
      then lyric_path
      else if std_find lyric_path ''radio_proxy.php'' \<noteq> None
      then base_url @ lyric_path
      else base_url @ lyric_path)"

subsection \<open>\<^verbatim>\<open>Esp32Radio::SkipId3Tag\<close>\<close>

text \<open>The three bytes of \<^verbatim>\<open>"ID3"\<close>.\<close>

definition ID3_marker :: "u8 list" where
  "ID3_marker = [0x49, 0x44, 0x33]"

text \<open>
  The local \<^verbatim>\<open>tag_size\<close> (a \<^verbatim>\<open>uint32_t\<close>): bytes 6 to 9, each masked with
  \<^verbatim>\<open>0x7F\<close>, shifted and combined with bitwise or.
\<close>

definition id3_tag_size :: "u8 list \<Rightarrow> u32" where
  "id3_tag_size d =
     ((push_bit 21 (ucast (d ! 6 AND 0x7F) :: u32) OR
       push_bit 14 (ucast (d ! 7 AND 0x7F) :: u32)) OR
       push_bit 7 (ucast (d ! 8 AND 0x7F) :: u32)) OR
       (ucast (d ! 9 AND 0x7F) :: u32)"

text \<open>
  \<^verbatim>\<open>data\<close> is \<open>None\<close> for the null pointer and \<open>Some d\<close> for a pointer to the bytes
  \<open>d\<close>; \<^verbatim>\<open>size\<close> (here \<open>sz\<close>) and the result are \<^verbatim>\<open>size_t\<close>.
\<close>

definition SkipId3Tag :: "u8 list option \<Rightarrow> u32 \<Rightarrow> u32" where
  "SkipId3Tag data sz =
     (case data of
        None \<Rightarrow> 0
      | Some d \<Rightarrow>
          if sz < 10 then 0
          else if take 3 d \<noteq> ID3_marker then 0
          else
            let total_skip = 10 + id3_tag_size d
            in if total_skip > sz then sz else total_skip)"

subsection \<open>A decoded frame in \<^verbatim>\<open>Esp32Radio::PlayAudioStream\<close>\<close>

text \<open>
  Arithmetic on \<^verbatim>\<open>int\<close> is modelled on the mathematical integers, with the ways in
  which a C++ operation has no defined result made explicit: a result outside of the
  32-bit range, a zero divisor, a \<^verbatim>\<open>float\<close> that the cast to \<^verbatim>\<open>int\<close> cannot
  represent, and a read behind the end of an array. Division truncates towards zero
  (\<open>sdiv\<close>). Where a claim depends on what the 32-bit machine makes of a product that
  does not fit (the divisor of the frame duration), the wrap-around is written out.
\<close>

datatype fault = SignedOverflow | DivisionByZero | FloatToIntRange | BufferOverrun

definition int_ok :: "int \<Rightarrow> bool" where
  "int_ok v \<longleftrightarrow> - (2 ^ 31) \<le> v \<and> v < 2 ^ 31"

definition int_mul :: "int \<Rightarrow> int \<Rightarrow> fault + int" where
  "int_mul a b = (if int_ok (a * b) then Inr (a * b) else Inl SignedOverflow)"

definition int_add :: "int \<Rightarrow> int \<Rightarrow> fault + int" where
  "int_add a b = (if int_ok (a + b) then Inr (a + b) else Inl SignedOverflow)"

definition int_div :: "int \<Rightarrow> int \<Rightarrow> fault + int" where
  "int_div a b =
     (if b = 0 then Inl DivisionByZero
      else if int_ok (a sdiv b) then Inr (a sdiv b)
      else Inl SignedOverflow)"

text \<open>The fields of the decoder's \<^verbatim>\<open>MP3FrameInfo\<close> that the code reads, all \<^verbatim>\<open>int\<close>.\<close>

record MP3FrameInfo =
  samprate :: int
  nChans :: int
  outputSamps :: int

text \<open>
  Lines 883 and 884:
  \<^verbatim>\<open>(outputSamps * 1000) / (samprate * nChans)\<close>. The two products are formed in
  32-bit two's complement arithmetic, where a product that does not fit wraps around
  (\<open>int_wrap\<close>); only the factors have been tested against zero, and a divisor that has
  wrapped to zero is a division by zero.
\<close>

definition int_wrap :: "int \<Rightarrow> int" where
  "int_wrap v = (v + 2 ^ 31) mod 2 ^ 32 - 2 ^ 31"

definition frame_duration_ms :: "MP3FrameInfo \<Rightarrow> fault + int" where
  "frame_duration_ms fi =
     int_div (int_wrap (outputSamps fi * 1000)) (int_wrap (samprate fi * nChans fi))"

text \<open>
  Lines 911 to 916, the loop that fills \<^verbatim>\<open>mono_buffer\<close>: entry \<open>i\<close> is
  \<^verbatim>\<open>(int16_t)((left + right) / 2)\<close> with \<^verbatim>\<open>left = pcm_buffer[i * 2]\<close> and
  \<^verbatim>\<open>right = pcm_buffer[i * 2 + 1]\<close>, both widened to \<^verbatim>\<open>int\<close>.
\<close>

definition stereo_to_mono :: "int \<Rightarrow> s16 list \<Rightarrow> s16 list" where
  "stereo_to_mono mono_samples pcm_buffer =
     map (\<lambda>i. word_of_int ((sint (pcm_buffer ! (i * 2)) + sint (pcm_buffer ! (i * 2 + 1))) sdiv 2))
       [0 ..< nat mono_samples]"

text \<open>
  Lines 899 to 929: the \<^verbatim>\<open>final_sample_count\<close> samples at \<^verbatim>\<open>final_pcm_data\<close>, which
  become the payload of the packet.
\<close>

definition final_pcm_data :: "MP3FrameInfo \<Rightarrow> s16 list \<Rightarrow> s16 list" where
  "final_pcm_data fi pcm_buffer =
     (if nChans fi = 2 then stereo_to_mono (outputSamps fi sdiv 2) pcm_buffer
      else if nChans fi = 1 then take (nat (outputSamps fi)) pcm_buffer
      else take (nat (outputSamps fi)) pcm_buffer)"

text \<open>
  Lines 870 to 966, the branch \<^verbatim>\<open>decode_result == 0\<close>: the frame is skipped
  (\<^verbatim>\<open>continue\<close>), or its duration is added to the play time and, when it has samples, a
  packet is sent. The samples are read from \<^verbatim>\<open>pcm_buffer\<close> (an array of 2304 entries in
  the code); a frame that reports more samples than the array holds is read behind its end.
  The frame counter, the update of the lyric display and the log output are left out.
\<close>

datatype frame_outcome =
    FrameSkipped
  | FrameFault fault
  | FramePlayed int "s16 list option"

definition decoded_frame :: "MP3FrameInfo \<Rightarrow> s16 list \<Rightarrow> frame_outcome" where
  "decoded_frame fi pcm_buffer =
     (if samprate fi = 0 \<or> nChans fi = 0 then FrameSkipped
      else
        (case frame_duration_ms fi of
           Inl f \<Rightarrow> FrameFault f
         | Inr frame_duration \<Rightarrow>
             if outputSamps fi > 0 then
               (if outputSamps fi > int (length pcm_buffer) then FrameFault BufferOverrun
                else FramePlayed frame_duration (Some (final_pcm_data fi pcm_buffer)))
             else FramePlayed frame_duration None))"

subsection \<open>The chunk buffer shared by the download and the play thread\<close>

text \<open>
  \<^verbatim>\<open>AudioChunk\<close> holds a pointer to the bytes and their number; the type \<open>'p\<close> stands for
  the pointer. The state of the buffer is the queue \<^verbatim>\<open>audio_buffer_\<close> (front first), the
  running total \<^verbatim>\<open>buffer_size_\<close> (a \<^verbatim>\<open>size_t\<close>: arithmetic modulo \<open>2 ^ 32\<close>) and
  the flag \<^verbatim>\<open>is_downloading_\<close>. The constant \<^verbatim>\<open>MAX_BUFFER_SIZE\<close> is declared in a
  header and is a parameter here.
\<close>

record 'p AudioChunk =
  data :: 'p
  size_bytes :: nat

record 'p chunk_buffer =
  audio_buffer :: "'p AudioChunk list"
  buffer_size :: nat
  is_downloading :: bool

definition size_t_add :: "nat \<Rightarrow> nat \<Rightarrow> nat" where
  "size_t_add a b = (a + b) mod 2 ^ 32"

definition size_t_sub :: "nat \<Rightarrow> nat \<Rightarrow> nat" where
  "size_t_sub a b = (a + 2 ^ 32 - b mod 2 ^ 32) mod 2 ^ 32"

text \<open>
  \<^verbatim>\<open>DownloadAudioStream\<close>, lines 656 to 676, for a chunk of \<^verbatim>\<open>bytes_read\<close> bytes. The
  thread waits while the predicate of \<^verbatim>\<open>buffer_cv_.wait\<close> is false (the state is then
  unchanged); otherwise it queues the chunk, or frees it when the download was stopped.
\<close>

datatype push_result = Pushed | WaitForSpace | Dropped

definition download_push ::
  "nat \<Rightarrow> 'p \<Rightarrow> nat \<Rightarrow> 'p chunk_buffer \<Rightarrow> push_result \<times> 'p chunk_buffer" where
  "download_push MAX_BUFFER_SIZE chunk_data bytes_read s =
     (if \<not> (buffer_size s < MAX_BUFFER_SIZE \<or> \<not> is_downloading s) then (WaitForSpace, s)
      else if is_downloading s then
        (Pushed,
         s\<lparr>audio_buffer := audio_buffer s @ [\<lparr>data = chunk_data, size_bytes = bytes_read\<rparr>],
           buffer_size := size_t_add (buffer_size s) bytes_read\<rparr>)
      else (Dropped, s))"

text \<open>
  \<^verbatim>\<open>PlayAudioStream\<close>, lines 797 to 818: with an empty queue the thread ends the playback
  (download finished) or waits; otherwise it takes the front chunk.
\<close>

datatype 'p pop_result = Popped "'p AudioChunk" | WaitForData | PlaybackFinished

definition play_pop :: "'p chunk_buffer \<Rightarrow> 'p pop_result \<times> 'p chunk_buffer" where
  "play_pop s =
     (case audio_buffer s of
        [] \<Rightarrow> (if \<not> is_downloading s then PlaybackFinished else WaitForData, s)
      | chunk # rest \<Rightarrow>
          (Popped chunk,
           s\<lparr>audio_buffer := rest,
             buffer_size := size_t_sub (buffer_size s) (size_bytes chunk)\<rparr>))"

text \<open>\<^verbatim>\<open>ClearAudioBuffer\<close>: the loop pops (and frees) every chunk, then the total is reset.\<close>

fun clear_loop :: "'p AudioChunk list \<Rightarrow> 'p AudioChunk list" where
  "clear_loop [] = []"
| "clear_loop (chunk # rest) = clear_loop rest"

definition ClearAudioBuffer :: "'p chunk_buffer \<Rightarrow> 'p chunk_buffer" where
  "ClearAudioBuffer s = s\<lparr>audio_buffer := clear_loop (audio_buffer s), buffer_size := 0\<rparr>"

text \<open>
  The critical sections of the threads, in the order in which they take the mutex, and the
  writes to the flag.
\<close>

datatype 'p buffer_event = Push 'p nat | Pop | Clear | SetDownloading bool

fun buffer_step :: "nat \<Rightarrow> 'p chunk_buffer \<Rightarrow> 'p buffer_event \<Rightarrow> 'p chunk_buffer" where
  "buffer_step cap s (Push p n) = snd (download_push cap p n s)"
| "buffer_step cap s Pop = snd (play_pop s)"
| "buffer_step cap s Clear = ClearAudioBuffer s"
| "buffer_step cap s (SetDownloading b) = s\<lparr>is_downloading := b\<rparr>"

fun buffer_run :: "nat \<Rightarrow> 'p chunk_buffer \<Rightarrow> 'p buffer_event list \<Rightarrow> 'p chunk_buffer" where
  "buffer_run cap s [] = s"
| "buffer_run cap s (e # es) = buffer_run cap (buffer_step cap s e) es"

text \<open>The state that the constructor sets up.\<close>

definition initial_buffer :: "'p chunk_buffer" where
  "initial_buffer = \<lparr>audio_buffer = [], buffer_size = 0, is_downloading = False\<rparr>"

text \<open>
  The download loop pushes only after \<^verbatim>\<open>http->Read(buffer, chunk_size)\<close> has returned a
  positive number, which is at most \<^verbatim>\<open>chunk_size = 4096\<close>.
\<close>

fun read_size_ok :: "'p buffer_event \<Rightarrow> bool" where
  "read_size_ok (Push p n) = (0 < n \<and> n \<le> 4096)"
| "read_size_ok e = True"

definition queued_bytes :: "'p chunk_buffer \<Rightarrow> nat" where
  "queued_bytes s = sum_list (map size_bytes (audio_buffer s))"

definition buffer_inv :: "nat \<Rightarrow> 'p chunk_buffer \<Rightarrow> bool" where
  "buffer_inv cap s \<longleftrightarrow> buffer_size s = queued_bytes s \<and> buffer_size s \<le> cap + 4095"

subsection \<open>\<^verbatim>\<open>Esp32Radio::UpdateLyricDisplay\<close>\<close>

text \<open>
  The state: the list \<^verbatim>\<open>lyrics_\<close>, the index \<^verbatim>\<open>current_lyric_index_\<close> (\<open>- 1\<close> for no
  line), whether the board has a display, and the texts sent to it with
  \<^verbatim>\<open>SetChatMessage("lyric", ...)\<close>.
\<close>

record lyric_display =
  lyrics :: "(int \<times> string) list"
  current_lyric_index :: int
  display_present :: bool
  chat_messages :: "string list"

text \<open>
  The loop of lines 1360 to 1366, from index \<open>i\<close> on (the index starts at
  \<^verbatim>\<open>start_index\<close>, which is not negative, and only grows).
\<close>

function scan_lyrics :: "(int \<times> string) list \<Rightarrow> int \<Rightarrow> nat \<Rightarrow> int \<Rightarrow> int" where
  "scan_lyrics ls current_time_ms i new_lyric_index =
     (if i < length ls then
        (if fst (ls ! i) \<le> current_time_ms then scan_lyrics ls current_time_ms (Suc i) (int i)
         else new_lyric_index)
      else new_lyric_index)"
  by pat_completeness auto
termination
  by (relation "measure (\<lambda>(ls, t, i, new). length ls - i)") auto

declare scan_lyrics.simps [simp del]

definition UpdateLyricDisplay :: "int \<Rightarrow> lyric_display \<Rightarrow> lyric_display" where
  "UpdateLyricDisplay current_time_ms s =
     (if lyrics s = [] then s
      else
        let start_index = (if current_lyric_index s \<ge> 0 then nat (current_lyric_index s) else 0);
            new_lyric_index = scan_lyrics (lyrics s) current_time_ms start_index (- 1)
        in if new_lyric_index \<noteq> current_lyric_index s then
             (if display_present s then
                s\<lparr>current_lyric_index := new_lyric_index,
                  chat_messages := chat_messages s @
                    [if new_lyric_index \<ge> 0 \<and> new_lyric_index < int (length (lyrics s))
                     then snd (lyrics s ! nat new_lyric_index) else []]\<rparr>
              else s\<lparr>current_lyric_index := new_lyric_index\<rparr>)
           else s)"

text \<open>
  What the claim asks of an index \<open>j\<close>: it is \<open>- 1\<close> and no line has a timestamp at or
  before \<open>t\<close>, or it is the last line whose timestamp is at or before \<open>t\<close>.
\<close>

definition last_line_at :: "(int \<times> string) list \<Rightarrow> int \<Rightarrow> int \<Rightarrow> bool" where
  "last_line_at ls t j \<longleftrightarrow>
     (if j = - 1 then (\<forall>k < length ls. t < fst (ls ! k))
      else 0 \<le> j \<and> j < int (length ls) \<and> fst (ls ! nat j) \<le> t \<and>
           (\<forall>k < length ls. int k > j \<longrightarrow> t < fst (ls ! k)))"

subsection \<open>Single-precision floating point\<close>

text \<open>
  A \<^verbatim>\<open>float\<close> is an IEEE 754 binary32 number: \<open>Finite m e\<close> stands for the number
  \<open>m * 2 ^ e\<close>; the sign of an infinity is never observed by the code and is left out.
  An operation rounds its exact result to 24 significant bits, to nearest with ties to even
  (\<open>round_binary\<close>, with the least exponent \<open>- 149\<close> of a subnormal number), and
  gives infinity from \<open>2 ^ 128\<close> on. All arithmetic is exact integer arithmetic on the
  numerator and the denominator.
\<close>

datatype float32 = Finite int int | Infinity | NaN

function bit_length :: "int \<Rightarrow> int" where
  "bit_length n = (if n \<le> 0 then 0 else 1 + bit_length (n div 2))"
  by pat_completeness auto
termination
  by (relation "measure nat") auto

declare bit_length.simps [simp del]

definition floor_log2 :: "int \<Rightarrow> int \<Rightarrow> int" where
  "floor_log2 num den =
     (let d = bit_length num - bit_length den
      in if (if 0 \<le> d then den * 2 ^ nat d \<le> num else den \<le> num * 2 ^ nat (- d))
         then d else d - 1)"

definition round_half_even :: "int \<Rightarrow> int \<Rightarrow> int" where
  "round_half_even n d =
     (let q = n div d; r = n mod d
      in if 2 * r < d then q
         else if d < 2 * r then q + 1
         else if even q then q else q + 1)"

definition round_binary :: "int \<Rightarrow> int \<Rightarrow> int \<Rightarrow> int \<Rightarrow> int \<times> int" where
  "round_binary p qmin num den =
     (if num = 0 then (0, 0)
      else
        let q = max (floor_log2 num den - (p - 1)) qmin
        in (if 0 \<le> q then round_half_even num (den * 2 ^ nat q)
            else round_half_even (num * 2 ^ nat (- q)) den, q))"

definition at_least_pow2 :: "int \<times> int \<Rightarrow> nat \<Rightarrow> bool" where
  "at_least_pow2 mq k = (case mq of (m, q) \<Rightarrow> 0 \<le> q \<and> 2 ^ k \<le> m * 2 ^ nat q)"

definition to_float32 :: "bool \<Rightarrow> int \<Rightarrow> int \<Rightarrow> float32" where
  "to_float32 negative num den =
     (let mq = round_binary 24 (- 149) num den
      in if at_least_pow2 mq 128 then Infinity
         else Finite (if negative then - fst mq else fst mq) (snd mq))"

definition float32_mul :: "float32 \<Rightarrow> float32 \<Rightarrow> float32" where
  "float32_mul x y =
     (case (x, y) of
        (Finite a ea, Finite b eb) \<Rightarrow>
          (let m = a * b; e = ea + eb
           in if 0 \<le> e then to_float32 (m < 0) (\<bar>m\<bar> * 2 ^ nat e) 1
              else to_float32 (m < 0) \<bar>m\<bar> (2 ^ nat (- e)))
      | (Finite a ea, Infinity) \<Rightarrow> (if a = 0 then NaN else Infinity)
      | (Infinity, Finite b eb) \<Rightarrow> (if b = 0 then NaN else Infinity)
      | (Infinity, Infinity) \<Rightarrow> Infinity
      | _ \<Rightarrow> NaN)"

definition float32_to_int :: "float32 \<Rightarrow> fault + int" where
  "float32_to_int x =
     (case x of
        Finite m e \<Rightarrow>
          (let v = (if 0 \<le> e then m * 2 ^ nat e else m sdiv 2 ^ nat (- e))
           in if int_ok v then Inr v else Inl FloatToIntRange)
      | _ \<Rightarrow> Inl FloatToIntRange)"


subsection \<open>\<^verbatim>\<open>std::stoi\<close> and \<^verbatim>\<open>std::stof\<close>\<close>

text \<open>
  The two library functions, after the C standard's \<^verbatim>\<open>strtol\<close> (base 10) and
  \<^verbatim>\<open>strtof\<close>: white space is skipped, then an optional sign, then the longest prefix of
  the expected form is converted and what follows is ignored. \<open>StoiThrows\<close> and
  \<open>StofThrows\<close> stand for the exceptions \<^verbatim>\<open>std::invalid_argument\<close> (nothing to
  convert) and \<^verbatim>\<open>std::out_of_range\<close> (the value does not fit). \<^verbatim>\<open>strtof\<close> reads a
  decimal number with an optional exponent, a hexadecimal number with an optional binary
  exponent, or an infinity or NaN, and rounds correctly. It reports a range error, on which
  \<^verbatim>\<open>std::stof\<close> throws \<^verbatim>\<open>std::out_of_range\<close>, when the value overflows (the rounded
  result is infinite) and when it underflows: the value is not zero, lies below the least
  normal number \<open>2 ^ - 126\<close>, and is not a binary32 number itself (it is no multiple of
  \<open>2 ^ - 149\<close>).
\<close>

definition isdigit :: "char \<Rightarrow> bool" where
  "isdigit c \<longleftrightarrow> c \<in> set ''0123456789''"

definition isspace :: "char \<Rightarrow> bool" where
  "isspace c \<longleftrightarrow> c \<in> set [CHR '' '', CHR 0x09, CHR 0x0A, CHR 0x0B, CHR 0x0C, CHR 0x0D]"

definition tolower :: "char \<Rightarrow> char" where
  "tolower c =
     (case map_of (zip ''ABCDEFGHIJKLMNOPQRSTUVWXYZ'' ''abcdefghijklmnopqrstuvwxyz'') c of
        Some l \<Rightarrow> l
      | None \<Rightarrow> c)"

definition isxdigit :: "char \<Rightarrow> bool" where
  "isxdigit c \<longleftrightarrow> isdigit c \<or> tolower c \<in> set ''abcdef''"

definition digit_value :: "char \<Rightarrow> int" where
  "digit_value c = int (of_char c) - 48"

definition xdigit_value :: "char \<Rightarrow> int" where
  "xdigit_value c = (if isdigit c then digit_value c else int (of_char (tolower c)) - 87)"

definition decimal_value :: "string \<Rightarrow> int" where
  "decimal_value ds = foldl (\<lambda>acc c. acc * 10 + digit_value c) 0 ds"

definition hex_value :: "string \<Rightarrow> int" where
  "hex_value ds = foldl (\<lambda>acc c. acc * 16 + xdigit_value c) 0 ds"

definition sign_prefix :: "string \<Rightarrow> bool \<times> string" where
  "sign_prefix s =
     (case s of
        [] \<Rightarrow> (False, [])
      | c # r \<Rightarrow> if c = CHR ''-'' then (True, r) else if c = CHR ''+'' then (False, r) else (False, s))"

datatype stoi_result = StoiValue int | StoiThrows

definition stoi :: "string \<Rightarrow> stoi_result" where
  "stoi str =
     (let (negative, s) = sign_prefix (dropWhile isspace str);
          ds = takeWhile isdigit s
      in if ds = [] then StoiThrows
         else
           let v = (if negative then - decimal_value ds else decimal_value ds)
           in if int_ok v then StoiValue v else StoiThrows)"

definition exponent_part :: "char \<Rightarrow> string \<Rightarrow> int" where
  "exponent_part marker s =
     (case s of
        [] \<Rightarrow> 0
      | c # r \<Rightarrow>
          if tolower c \<noteq> marker then 0
          else
            let (negative, r') = sign_prefix r;
                ds = takeWhile isdigit r'
            in if ds = [] then 0
               else if negative then - decimal_value ds else decimal_value ds)"

definition fraction_part :: "(char \<Rightarrow> bool) \<Rightarrow> string \<Rightarrow> string \<times> string" where
  "fraction_part is_digit s =
     (case s of
        [] \<Rightarrow> ([], [])
      | c # r \<Rightarrow>
          if c = CHR ''.'' then (takeWhile is_digit r, dropWhile is_digit r) else ([], s))"

datatype stof_result = StofValue float32 | StofThrows

definition float32_underflow :: "int \<Rightarrow> int \<Rightarrow> bool" where
  "float32_underflow num den \<longleftrightarrow>
     num \<noteq> 0 \<and> num * 2 ^ 126 < den \<and> (num * 2 ^ 149) mod den \<noteq> 0"

definition strtof_value :: "bool \<Rightarrow> int \<Rightarrow> int \<Rightarrow> stof_result" where
  "strtof_value negative num den =
     (if float32_underflow num den then StofThrows
      else
        let x = to_float32 negative num den
        in if x = Infinity then StofThrows else StofValue x)"

definition scaled_float32 :: "bool \<Rightarrow> int \<Rightarrow> int \<Rightarrow> int \<Rightarrow> stof_result" where
  "scaled_float32 negative mant base ex =
     (if 0 \<le> ex then strtof_value negative (mant * base ^ nat ex) 1
      else strtof_value negative mant (base ^ nat (- ex)))"

definition stof_decimal :: "bool \<Rightarrow> string \<Rightarrow> stof_result" where
  "stof_decimal negative s =
     (let ints = takeWhile isdigit s;
          (fracs, rest) = fraction_part isdigit (dropWhile isdigit s)
      in if ints @ fracs = [] then StofThrows
         else scaled_float32 negative (decimal_value (ints @ fracs)) 10
                (exponent_part CHR ''e'' rest - int (length fracs)))"

definition stof_hex :: "bool \<Rightarrow> string \<Rightarrow> stof_result option" where
  "stof_hex negative s =
     (let ints = takeWhile isxdigit s;
          (fracs, rest) = fraction_part isxdigit (dropWhile isxdigit s)
      in if ints @ fracs = [] then None
         else Some (scaled_float32 negative (hex_value (ints @ fracs)) 2
                (exponent_part CHR ''p'' rest - 4 * int (length fracs))))"

definition stof :: "string \<Rightarrow> stof_result" where
  "stof str =
     (let (negative, s) = sign_prefix (dropWhile isspace str)
      in if map tolower (take 3 s) = ''inf'' then StofValue Infinity
         else if map tolower (take 3 s) = ''nan'' then StofValue NaN
         else if map tolower (take 2 s) = ''0x'' then
           (case stof_hex negative (drop 2 s) of
              Some r \<Rightarrow> r
            | None \<Rightarrow> stof_decimal negative s)
         else stof_decimal negative s)"

subsection \<open>\<^verbatim>\<open>Esp32Radio::ParseLyrics\<close>\<close>

text \<open>
  Line 1292: \<^verbatim>\<open>minutes * 60 * 1000 + (int)(seconds * 1000)\<close>. The product of
  \<^verbatim>\<open>seconds\<close> and 1000 is a \<^verbatim>\<open>float\<close>; the cast truncates towards zero and has no
  defined result outside of the range of \<^verbatim>\<open>int\<close>.
\<close>

definition timestamp_ms :: "int \<Rightarrow> float32 \<Rightarrow> fault + int" where
  "timestamp_ms minutes seconds =
     (case int_mul minutes 60 of
        Inl f \<Rightarrow> Inl f
      | Inr a \<Rightarrow>
          (case int_mul a 1000 of
             Inl f \<Rightarrow> Inl f
           | Inr b \<Rightarrow>
               (case float32_to_int (float32_mul seconds (Finite 1000 0)) of
                  Inl f \<Rightarrow> Inl f
                | Inr c \<Rightarrow> (case int_add b c of Inl f \<Rightarrow> Inl f | Inr t \<Rightarrow> Inr t))))"

text \<open>
  What the body of the loop does with one line of the input (lines 1251 to 1318): a pair is
  appended to \<^verbatim>\<open>lyrics_\<close>, or nothing is, or the arithmetic has no defined result.
\<close>

datatype line_result = LineAppended int string | LineIgnored | LineFault fault

text \<open>
  The \<^verbatim>\<open>try\<close> block of lines 1289 to 1315, for the two parts of the tag and the text
  after the bracket; an exception of \<^verbatim>\<open>stoi\<close> or \<^verbatim>\<open>stof\<close> is caught and the line
  is dropped.
\<close>

definition timed_line :: "string \<Rightarrow> string \<Rightarrow> string \<Rightarrow> line_result" where
  "timed_line minutes_part seconds_part content =
     (case stoi minutes_part of
        StoiThrows \<Rightarrow> LineIgnored
      | StoiValue minutes \<Rightarrow>
          (case stof seconds_part of
             StofThrows \<Rightarrow> LineIgnored
           | StofValue seconds \<Rightarrow>
               (case timestamp_ms minutes seconds of
                  Inl f \<Rightarrow> LineFault f
                | Inr t \<Rightarrow> LineAppended t content)))"

definition strip_cr :: "string \<Rightarrow> string" where
  "strip_cr line = (if line \<noteq> [] \<and> last line = CHR 0x0D then butlast line else line)"

definition parse_line :: "string \<Rightarrow> line_result" where
  "parse_line raw =
     (let line = strip_cr raw
      in if line = [] then LineIgnored
         else if length line > 10 \<and> line ! 0 = CHR ''['' then
           (case find_char line CHR '']'' of
              None \<Rightarrow> LineIgnored
            | Some close_bracket \<Rightarrow>
                let tag_or_time = take (close_bracket - 1) (drop 1 line);
                    content = drop (close_bracket + 1) line
                in (case find_char tag_or_time CHR '':'' of
                      None \<Rightarrow> LineIgnored
                    | Some colon_pos \<Rightarrow>
                        let left_part = take colon_pos tag_or_time
                        in if \<not> list_all isdigit left_part then LineIgnored
                           else timed_line (take colon_pos tag_or_time)
                                  (drop (colon_pos + 1) tag_or_time) content))
         else LineIgnored)"

text \<open>
  The loop \<^verbatim>\<open>while (std::getline(stream, line))\<close>: the lines of the content, ended by
  a line feed or by the end of the content; \<open>line\<close> holds the characters read so far.
\<close>

fun getlines :: "string \<Rightarrow> string \<Rightarrow> string list" where
  "getlines line [] = (if line = [] then [] else [line])"
| "getlines line (c # cs) =
     (if c = CHR 0x0A then line # getlines [] cs else getlines (line @ [c]) cs)"

text \<open>The calls of \<^verbatim>\<open>lyrics_.push_back\<close>, in the order of the lines.\<close>

fun push_back_all :: "(int \<times> string) list \<Rightarrow> line_result list \<Rightarrow> fault + (int \<times> string) list" where
  "push_back_all ls [] = Inr ls"
| "push_back_all ls (LineAppended t content # rs) = push_back_all (ls @ [(t, content)]) rs"
| "push_back_all ls (LineIgnored # rs) = push_back_all ls rs"
| "push_back_all ls (LineFault f # rs) = Inl f"

text \<open>
  \<^verbatim>\<open>std::sort(lyrics_.begin(), lyrics_.end())\<close> orders the pairs with the comparison
  of \<^verbatim>\<open>std::pair\<close>: by timestamp, and by text (as byte strings) for equal timestamps.
  This is the order of \<open>int \<times> string\<close> here, and a sorted list of given elements in a
  linear order is unique, so \<open>sort\<close> returns what \<^verbatim>\<open>std::sort\<close> leaves in the vector.
\<close>

definition ParseLyrics :: "string \<Rightarrow> fault + (int \<times> string) list" where
  "ParseLyrics lyric_content =
     (case push_back_all [] (map parse_line (getlines [] lyric_content)) of
        Inl f \<Rightarrow> Inl f
      | Inr ls \<Rightarrow> Inr (sort ls))"

text \<open>The pairs that a list of line results appends, in their order.\<close>

definition appended_pairs :: "line_result list \<Rightarrow> (int \<times> string) list" where
  "appended_pairs rs = concat (map (\<lambda>r. case r of LineAppended t c \<Rightarrow> [(t, c)] | _ \<Rightarrow> []) rs)"

subsection \<open>\<^verbatim>\<open>Esp32Radio::DownloadLyrics\<close>\<close>

text \<open>
  The network is a parameter: \<open>net k\<close> says what the attempt made with
  \<^verbatim>\<open>retry_count = k\<close> meets. \<^verbatim>\<open>CreateHttp\<close> returns no client, or \<^verbatim>\<open>Open\<close> fails,
  or the server answers with a status code, possibly a \<^verbatim>\<open>Location\<close> header, and the
  results of the successive calls of \<^verbatim>\<open>Read\<close>: some bytes or a negative number, and 0
  (the end of the body) once the list is used up. What the code does to the outside is
  recorded as a list of events.
\<close>

datatype read_result = ReadData string | ReadError

datatype http_attempt =
    NoClient
  | OpenFails
  | Response int "string option" "read_result list"

datatype net_event = Sleep nat | CreateHttp | Open string | Close

text \<open>
  \<^verbatim>\<open>lyric_content += buffer\<close> appends the bytes of the buffer up to its first zero byte.
\<close>

definition c_str :: "string \<Rightarrow> string" where
  "c_str buffer = takeWhile (\<lambda>c. c \<noteq> CHR 0x00) buffer"

text \<open>
  The loop \<^verbatim>\<open>while (true)\<close> of lines 1172 to 1202: the content read and the flag
  \<^verbatim>\<open>read_error\<close>.
\<close>

fun read_loop :: "read_result list \<Rightarrow> string \<Rightarrow> string \<times> bool" where
  "read_loop [] lyric_content = (lyric_content, False)"
| "read_loop (ReadData buffer # reads) lyric_content = read_loop reads (lyric_content @ c_str buffer)"
| "read_loop (ReadError # reads) lyric_content =
     (if lyric_content \<noteq> [] then (lyric_content, False) else (lyric_content, True))"

definition max_retries :: nat where
  "max_retries = 3"

definition max_redirects :: nat where
  "max_redirects = 5"

text \<open>\<^verbatim>\<open>redirect_count\<close> is set to 0 and never changed.\<close>

definition redirect_count :: nat where
  "redirect_count = 0"

text \<open>
  The loop of lines 1112 to 1215, from the value \<open>retry_count\<close> on: the events, and the
  content when an attempt succeeds (\<open>None\<close> when the loop ends with
  \<^verbatim>\<open>retry_count >= max_retries\<close>). \<open>after_events\<close> puts the events of an attempt
  before those of the rest of the loop.
\<close>

definition after_events :: "net_event list \<Rightarrow> net_event list \<times> string option \<Rightarrow> net_event list \<times> string option" where
  "after_events es r = (es @ fst r, snd r)"

function retry_loop :: "(nat \<Rightarrow> http_attempt) \<Rightarrow> string \<Rightarrow> nat \<Rightarrow> net_event list \<times> string option" where
  "retry_loop net current_url retry_count =
     (if retry_count < max_retries \<and> redirect_count < max_redirects then
        (let pause = (if retry_count > 0 then [Sleep 500] else [])
         in case net retry_count of
              NoClient \<Rightarrow>
                after_events (pause @ [CreateHttp]) (retry_loop net current_url (retry_count + 1))
            | OpenFails \<Rightarrow>
                after_events (pause @ [CreateHttp, Open current_url])
                  (retry_loop net current_url (retry_count + 1))
            | Response status_code location reads \<Rightarrow>
                if status_code = 301 \<or> status_code = 302 \<or> status_code = 303 \<or>
                   status_code = 307 \<or> status_code = 308
                then after_events (pause @ [CreateHttp, Open current_url, Close])
                       (retry_loop net current_url (retry_count + 1))
                else if status_code < 200 \<or> status_code \<ge> 300
                then after_events (pause @ [CreateHttp, Open current_url, Close])
                       (retry_loop net current_url (retry_count + 1))
                else
                  (case read_loop reads [] of
                     (lyric_content, read_error) \<Rightarrow>
                       if read_error
                       then after_events (pause @ [CreateHttp, Open current_url, Close])
                              (retry_loop net current_url (retry_count + 1))
                       else (pause @ [CreateHttp, Open current_url, Close], Some lyric_content)))
      else ([], None))"
  by pat_completeness auto
termination
  by (relation "measure (\<lambda>(net, url, k). max_retries - k)") auto

declare retry_loop.simps [simp del]

text \<open>
  The result is \<open>None\<close> when the function returns false before parsing, and what
  \<^verbatim>\<open>ParseLyrics\<close> makes of the content otherwise.
\<close>

definition DownloadLyrics ::
  "(nat \<Rightarrow> http_attempt) \<Rightarrow> string \<Rightarrow> net_event list \<times> (fault + (int \<times> string) list) option" where
  "DownloadLyrics net lyric_url =
     (if lyric_url = [] then ([], None)
      else
        (case retry_loop net lyric_url 0 of
           (events, None) \<Rightarrow> (events, None)
         | (events, Some lyric_content) \<Rightarrow>
             if lyric_content = [] then (events, None)
             else (events, Some (ParseLyrics lyric_content))))"

text \<open>
  The events of the attempt number \<open>k\<close>: the pause of 500 ms when it is a retry, the
  creation of the client, the request to \<open>url\<close> unless there is no client, and the close
  of a connection that was opened.
\<close>

fun attempt_events :: "string \<Rightarrow> nat \<Rightarrow> http_attempt \<Rightarrow> net_event list" where
  "attempt_events url k NoClient = (if k > 0 then [Sleep 500] else []) @ [CreateHttp]"
| "attempt_events url k OpenFails = (if k > 0 then [Sleep 500] else []) @ [CreateHttp, Open url]"
| "attempt_events url k (Response status_code location reads) =
     (if k > 0 then [Sleep 500] else []) @ [CreateHttp, Open url, Close]"

text \<open>The attempts after which \<^verbatim>\<open>retry_count\<close> is incremented.\<close>

definition attempt_fails :: "http_attempt \<Rightarrow> bool" where
  "attempt_fails a =
     (case a of
        NoClient \<Rightarrow> True
      | OpenFails \<Rightarrow> True
      | Response status_code location reads \<Rightarrow>
          status_code < 200 \<or> status_code \<ge> 300 \<or> snd (read_loop reads []))"

text \<open>A network that answers every request with a redirect to another URL.\<close>

definition always_redirected :: "nat \<Rightarrow> http_attempt" where
  "always_redirected k = Response 302 (Some ''https://elsewhere.example/lyric.lrc'') []"

section \<open>Theorems\<close>

subsection \<open>String search\<close>

lemma std_find_occurs:
  "std_find s pat = Some i \<Longrightarrow> \<exists>u v. s = u @ pat @ v \<and> length u = i"
proof (induction s arbitrary: i)
  case Nil
  then show ?case by (auto split: if_splits)
next
  case (Cons c cs)
  show ?case
  proof (cases "prefix pat (c # cs)")
    case True
    with Cons.prems have "i = 0" by simp
    moreover from True obtain v where "c # cs = pat @ v" by (auto simp: prefix_def)
    ultimately show ?thesis by auto
  next
    case False
    with Cons.prems obtain j where j: "std_find cs pat = Some j" "i = Suc j" by auto
    from Cons.IH [OF j(1)] obtain u v where "cs = u @ pat @ v" "length u = j" by blast
    then have "c # cs = (c # u) @ pat @ v \<and> length (c # u) = i" using j(2) by simp
    then show ?thesis by blast
  qed
qed

lemma std_find_finds: "std_find (u @ pat @ v) pat \<noteq> None"
proof (induction u)
  case Nil
  have "prefix pat (pat @ v)" by simp
  then show ?case by (cases "pat @ v") auto
next
  case (Cons c u)
  then show ?case by auto
qed

lemma std_find_iff: "std_find s pat \<noteq> None \<longleftrightarrow> (\<exists>u v. s = u @ pat @ v)"
  using std_find_occurs std_find_finds by fastforce

subsection \<open>URL resolution\<close>

lemma resolve_audio_url_absolute:
  "prefix ''http://'' p \<or> prefix ''https://'' p \<Longrightarrow> resolve_audio_url p = p"
  unfolding resolve_audio_url_def rfind0_def by auto

lemma resolve_lyric_url_absolute:
  "prefix ''http://'' p \<or> prefix ''https://'' p \<Longrightarrow> resolve_lyric_url p = p"
  unfolding resolve_lyric_url_def rfind0_def by auto

lemma resolve_audio_url_relative:
  "\<not> prefix ''http://'' p \<Longrightarrow> \<not> prefix ''https://'' p \<Longrightarrow> resolve_audio_url p = base_url @ p"
  unfolding resolve_audio_url_def rfind0_def by simp

lemma resolve_lyric_url_relative:
  "\<not> prefix ''http://'' p \<Longrightarrow> \<not> prefix ''https://'' p \<Longrightarrow> resolve_lyric_url p = base_url @ p"
  unfolding resolve_lyric_url_def rfind0_def by simp

text \<open>
  Claim C6. A URL that starts with \<^verbatim>\<open>http://\<close> or \<^verbatim>\<open>https://\<close> is kept as it is, for
  the audio URL and for the lyric URL alike. Every other URL becomes the API base followed
  by the path; this covers the path that contains the proxy marker
  \<^verbatim>\<open>radio_proxy.php\<close> (which the search of the code does find) and every other relative
  path.
\<close>

theorem Download_url_resolution:
  "(prefix ''http://'' p \<or> prefix ''https://'' p \<longrightarrow>
      resolve_audio_url p = p \<and> resolve_lyric_url p = p) \<and>
   (\<not> prefix ''http://'' p \<and> \<not> prefix ''https://'' p \<longrightarrow>
      resolve_audio_url p = base_url @ p \<and> resolve_lyric_url p = base_url @ p) \<and>
   (\<not> prefix ''http://'' p \<and> \<not> prefix ''https://'' p \<and> (\<exists>u v. p = u @ ''radio_proxy.php'' @ v) \<longrightarrow>
      std_find p ''radio_proxy.php'' \<noteq> None \<and>
      resolve_audio_url p = base_url @ p \<and> resolve_lyric_url p = base_url @ p)"
  using resolve_audio_url_absolute [of p] resolve_lyric_url_absolute [of p]
    resolve_audio_url_relative [of p] resolve_lyric_url_relative [of p]
    std_find_iff [of p "''radio_proxy.php''"]
  by blast

theorem Download_url_resolution_witness:
  "resolve_audio_url ''https://cdn.example.org/a.mp3'' = ''https://cdn.example.org/a.mp3'' \<and>
   resolve_lyric_url ''http://cdn.example.org/a.lrc'' = ''http://cdn.example.org/a.lrc'' \<and>
   resolve_audio_url ''radio_proxy.php?id=7'' = ''https://ai.daongoc.vn/radio/radio_proxy.php?id=7'' \<and>
   resolve_lyric_url ''lyrics/7.lrc'' = ''https://ai.daongoc.vn/radio/lyrics/7.lrc''"
proof -
  have a: "prefix ''http://'' ''https://cdn.example.org/a.mp3'' \<or>
           prefix ''https://'' ''https://cdn.example.org/a.mp3''"
    by simp
  have b: "prefix ''http://'' ''http://cdn.example.org/a.lrc'' \<or>
           prefix ''https://'' ''http://cdn.example.org/a.lrc''"
    by simp
  have c: "\<not> prefix ''http://'' ''radio_proxy.php?id=7'' \<and>
           \<not> prefix ''https://'' ''radio_proxy.php?id=7''"
    by simp
  have d: "\<not> prefix ''http://'' ''lyrics/7.lrc'' \<and> \<not> prefix ''https://'' ''lyrics/7.lrc''"
    by simp
  show ?thesis
    using a b c d
      Download_url_resolution [of "''https://cdn.example.org/a.mp3''"]
      Download_url_resolution [of "''http://cdn.example.org/a.lrc''"]
      Download_url_resolution [of "''radio_proxy.php?id=7''"]
      Download_url_resolution [of "''lyrics/7.lrc''"]
    by (simp add: base_url_def)
qed

subsection \<open>The ID3v2 size field\<close>

lemma and_0x7F: "(a AND 0x7F :: u8) = take_bit 7 a"
  by (simp add: take_bit_eq_mask mask_eq_exp_minus_1)

lemma ucast_and_0x7F: "(ucast (a AND 0x7F :: u8) :: u32) = take_bit 7 (ucast a)"
  by (simp only: and_0x7F unsigned_take_bit_eq)

lemma septet_of_nat: "(take_bit 7 (ucast (x :: u8)) :: u32) = of_nat (unat x mod 128)"
proof -
  have "(take_bit 7 (ucast x) :: u32) = ucast (take_bit 7 x)"
    by (simp only: unsigned_take_bit_eq)
  also have "\<dots> = of_nat (unat (take_bit 7 x))"
    by simp
  also have "unat (take_bit 7 x) = unat x mod 128"
  proof -
    have "unat (take_bit 7 x) = take_bit 7 (unat x)"
      by (rule unsigned_take_bit_eq)
    then show ?thesis by (simp add: take_bit_eq_mod)
  qed
  finally show ?thesis .
qed

lemma septets_or_add:
  fixes A B C D :: u32
  shows "((push_bit 21 A OR push_bit 14 (take_bit 7 B)) OR push_bit 7 (take_bit 7 C)) OR take_bit 7 D
       = push_bit 21 A + push_bit 14 (take_bit 7 B) + push_bit 7 (take_bit 7 C) + take_bit 7 D"
proof -
  have 1: "push_bit 21 A AND push_bit 14 (take_bit 7 B) = 0"
    by (auto simp add: bit_eq_iff bit_simps)
  have 2: "(push_bit 21 A OR push_bit 14 (take_bit 7 B)) AND push_bit 7 (take_bit 7 C) = 0"
    by (auto simp add: bit_eq_iff bit_simps)
  have 3: "((push_bit 21 A OR push_bit 14 (take_bit 7 B)) OR push_bit 7 (take_bit 7 C))
             AND take_bit 7 D = 0"
    by (auto simp add: bit_eq_iff bit_simps)
  show ?thesis
    by (simp only: disjunctive_add_eq_or [OF 1] disjunctive_add_eq_or [OF 2]
        disjunctive_add_eq_or [OF 3])
qed

lemma septets_unat:
  fixes a b c d :: nat
  assumes "a < 128" "b < 128" "c < 128" "d < 128"
  shows "unat (push_bit 21 (of_nat a :: u32) + push_bit 14 (of_nat b) + push_bit 7 (of_nat c) + of_nat d)
       = a * 2 ^ 21 + b * 2 ^ 14 + c * 2 ^ 7 + d"
proof -
  define N where "N = a * 2 ^ 21 + b * 2 ^ 14 + c * 2 ^ 7 + d"
  have "push_bit 21 (of_nat a :: u32) + push_bit 14 (of_nat b) + push_bit 7 (of_nat c) + of_nat d
      = of_nat N"
    by (simp add: push_bit_eq_mult N_def)
  moreover have "N < 2 ^ 32"
    using assms by (simp add: N_def)
  moreover have "unat (of_nat N :: u32) = N mod 2 ^ 32"
    by (simp add: unat_of_nat)
  ultimately show ?thesis
    by (simp add: N_def)
qed

lemma id3_tag_size_unat:
  "unat (id3_tag_size d) =
     (unat (d ! 6) mod 128) * 2 ^ 21 + (unat (d ! 7) mod 128) * 2 ^ 14 +
     (unat (d ! 8) mod 128) * 2 ^ 7 + unat (d ! 9) mod 128"
proof -
  have eq: "id3_tag_size d =
      push_bit 21 (of_nat (unat (d ! 6) mod 128) :: u32) + push_bit 14 (of_nat (unat (d ! 7) mod 128))
      + push_bit 7 (of_nat (unat (d ! 8) mod 128)) + of_nat (unat (d ! 9) mod 128)"
    unfolding id3_tag_size_def ucast_and_0x7F septets_or_add
    by (simp only: septet_of_nat)
  have bounds: "unat (d ! 6) mod 128 < 128" "unat (d ! 7) mod 128 < 128"
    "unat (d ! 8) mod 128 < 128" "unat (d ! 9) mod 128 < 128"
    by simp_all
  show ?thesis
    unfolding eq by (rule septets_unat [OF bounds])
qed

lemma id3_tag_size_less: "unat (id3_tag_size d) < 2 ^ 28"
proof -
  have "unat (d ! 6) mod 128 < 128" "unat (d ! 7) mod 128 < 128"
    "unat (d ! 8) mod 128 < 128" "unat (d ! 9) mod 128 < 128"
    by simp_all
  then show ?thesis
    unfolding id3_tag_size_unat by simp
qed

lemma total_skip_unat: "unat (10 + id3_tag_size d) = 10 + unat (id3_tag_size d)"
proof -
  have "unat (10 :: u32) + unat (id3_tag_size d) < 2 ^ LENGTH(32)"
    using id3_tag_size_less [of d] by simp
  then have "unat (10 + id3_tag_size d) = unat (10 :: u32) + unat (id3_tag_size d)"
    by (simp only: unat_add_lem)
  then show ?thesis by simp
qed

lemma SkipId3Tag_unat:
  assumes "10 \<le> unat sz" and "take 3 d = ID3_marker"
  shows "unat (SkipId3Tag (Some d) sz) = min (10 + unat (id3_tag_size d)) (unat sz)"
proof -
  have "\<not> sz < 10"
    using assms(1) by (simp add: word_less_nat_alt)
  moreover have "(10 + id3_tag_size d > sz) = (unat sz < 10 + unat (id3_tag_size d))"
    by (simp only: word_less_nat_alt total_skip_unat)
  ultimately show ?thesis
    using assms(2) by (simp add: SkipId3Tag_def Let_def total_skip_unat min_def)
qed

text \<open>
  Claim C4. For a buffer of at least 10 available bytes that begins with \<^verbatim>\<open>"ID3"\<close>,
  the tag size is the 28-bit number made of the low seven bits of bytes 6, 7, 8 and 9 (bit 7
  of each byte is dropped), and the function returns 10 plus the tag size, or the number of
  available bytes when that is smaller. With the size bytes 0x00, 0x00, 0x02, 0x01 the tag
  size is 257 and, when at least 267 bytes are available, the skip is 267.
\<close>

theorem SkipId3Tag_synchsafe:
  assumes "10 \<le> unat sz" and "unat sz \<le> length d" and "take 3 d = ID3_marker"
  shows "unat (id3_tag_size d) =
           (unat (d ! 6) mod 128) * 2 ^ 21 + (unat (d ! 7) mod 128) * 2 ^ 14 +
           (unat (d ! 8) mod 128) * 2 ^ 7 + unat (d ! 9) mod 128 \<and>
         unat (SkipId3Tag (Some d) sz) = min (10 + unat (id3_tag_size d)) (unat sz) \<and>
         (d ! 6 = 0x00 \<and> d ! 7 = 0x00 \<and> d ! 8 = 0x02 \<and> d ! 9 = 0x01 \<longrightarrow>
            id3_tag_size d = 257 \<and> (267 \<le> unat sz \<longrightarrow> SkipId3Tag (Some d) sz = 267))"
proof -
  have ex: "id3_tag_size d = 257 \<and> (267 \<le> unat sz \<longrightarrow> SkipId3Tag (Some d) sz = 267)"
    if b: "d ! 6 = 0x00" "d ! 7 = 0x00" "d ! 8 = 0x02" "d ! 9 = 0x01"
  proof -
    have "unat (id3_tag_size d) = 257"
      unfolding id3_tag_size_unat by (simp add: b)
    then have t: "id3_tag_size d = 257"
      by (simp add: word_unat_eq_iff)
    have "SkipId3Tag (Some d) sz = 267" if "267 \<le> unat sz"
    proof -
      have "unat (SkipId3Tag (Some d) sz) = 267"
        using SkipId3Tag_unat [OF assms(1) assms(3)] that by (simp add: t)
      then show ?thesis
        by (simp add: word_unat_eq_iff)
    qed
    with t show ?thesis by blast
  qed
  show ?thesis
    using id3_tag_size_unat [of d] SkipId3Tag_unat [OF assms(1) assms(3)] ex by blast
qed

theorem SkipId3Tag_synchsafe_witness:
  "SkipId3Tag (Some ([0x49, 0x44, 0x33, 0x03, 0x00, 0x00, 0x00, 0x00, 0x02, 0x01] @ replicate 300 0)) 310
     = 267 \<and>
   SkipId3Tag (Some [0x49, 0x44, 0x33, 0x03, 0x00, 0x00, 0x00, 0x00, 0x02, 0x01]) 10 = 10"
proof -
  let ?h = "[0x49, 0x44, 0x33, 0x03, 0x00, 0x00, 0x00, 0x00, 0x02, 0x01] :: u8 list"
  have 1: "10 \<le> unat (310 :: u32)" "unat (310 :: u32) \<le> length (?h @ replicate 300 0)"
    "take 3 (?h @ replicate 300 0) = ID3_marker"
    by (simp_all add: ID3_marker_def)
  have 2: "10 \<le> unat (10 :: u32)" "unat (10 :: u32) \<le> length ?h" "take 3 ?h = ID3_marker"
    by (simp_all add: ID3_marker_def)
  have "SkipId3Tag (Some (?h @ replicate 300 0)) 310 = 267"
    using SkipId3Tag_synchsafe [OF 1] by simp
  moreover have "unat (SkipId3Tag (Some ?h) 10) = 10"
    using SkipId3Tag_synchsafe [OF 2] by simp
  then have "SkipId3Tag (Some ?h) 10 = 10"
    by (simp add: word_unat_eq_iff)
  ultimately show ?thesis by blast
qed

subsection \<open>Decoded frames: duration and downmix\<close>

lemma abs_div_nonneg: "0 \<le> \<bar>a::int\<bar> div \<bar>b\<bar>"
  by (simp add: div_int_pos_iff)

lemma abs_div_le: "\<bar>a::int\<bar> div \<bar>b\<bar> \<le> \<bar>a\<bar>"
proof (cases "b = 0")
  case True
  then show ?thesis by simp
next
  case False
  then have "1 \<le> \<bar>b\<bar>" by simp
  then have "\<bar>a\<bar> div \<bar>b\<bar> \<le> \<bar>a\<bar> div 1"
    by (intro zdiv_mono2) simp_all
  then show ?thesis by simp
qed

lemma sdiv_abs_le: "\<bar>(a::int) sdiv b\<bar> \<le> \<bar>a\<bar>"
proof -
  have "\<bar>a sdiv b\<bar> = \<bar>sgn a\<bar> * \<bar>sgn b\<bar> * \<bar>\<bar>a\<bar> div \<bar>b\<bar>\<bar>"
    by (simp only: signed_divide_int_def abs_mult)
  also have "\<dots> = \<bar>sgn a\<bar> * \<bar>sgn b\<bar> * (\<bar>a\<bar> div \<bar>b\<bar>)"
    using abs_div_nonneg [of a b] by simp
  also have "\<dots> \<le> \<bar>a\<bar> div \<bar>b\<bar>"
    using abs_div_nonneg [of a b] by (simp add: sgn_if)
  also have "\<dots> \<le> \<bar>a\<bar>"
    by (rule abs_div_le)
  finally show ?thesis .
qed

lemma int_ok_sdiv:
  assumes "int_ok a" and "0 \<le> a"
  shows "int_ok (a sdiv b)"
proof -
  define q where "q = a sdiv b"
  have "\<bar>q\<bar> \<le> \<bar>a\<bar>"
    unfolding q_def by (rule sdiv_abs_le)
  then have "int_ok q"
    using assms by (auto simp add: int_ok_def)
  then show ?thesis
    by (simp only: q_def)
qed

lemma int_wrap_ok:
  assumes "int_ok v"
  shows "int_wrap v = v"
proof -
  have "0 \<le> v + 2 ^ 31" "v + 2 ^ 31 < 2 ^ 32"
    using assms by (simp_all add: int_ok_def)
  then have "(v + 2 ^ 31) mod 2 ^ 32 = v + 2 ^ 31"
    by (rule mod_pos_pos_trivial)
  then show ?thesis
    by (simp add: int_wrap_def)
qed

lemma frame_duration_ms_no_zero_division:
  assumes "samprate fi \<noteq> 0" and "nChans fi \<noteq> 0" and "int_ok (samprate fi * nChans fi)"
  shows "frame_duration_ms fi \<noteq> Inl DivisionByZero"
  using assms
  by (simp add: frame_duration_ms_def int_div_def int_wrap_ok)

lemma frame_duration_ms_value:
  assumes "frame_duration_ms fi = Inr d"
  shows "d = int_wrap (outputSamps fi * 1000) sdiv int_wrap (samprate fi * nChans fi) \<and>
         int_wrap (samprate fi * nChans fi) \<noteq> 0"
  using assms
  by (auto simp add: frame_duration_ms_def int_div_def split: if_splits)

lemma frame_duration_ms_in_range:
  assumes "int_ok (outputSamps fi * 1000)" and "0 \<le> outputSamps fi"
    and "int_ok (samprate fi * nChans fi)" and "samprate fi * nChans fi \<noteq> 0"
  shows "frame_duration_ms fi = Inr ((outputSamps fi * 1000) sdiv (samprate fi * nChans fi))"
proof -
  have "0 \<le> outputSamps fi * 1000"
    using assms(2) by simp
  with assms(1) have "int_ok ((outputSamps fi * 1000) sdiv (samprate fi * nChans fi))"
    by (rule int_ok_sdiv)
  then show ?thesis
    using assms(1,3,4) by (simp add: frame_duration_ms_def int_div_def int_wrap_ok)
qed

lemma frame_duration_ms_mp3:
  assumes "0 < samprate fi" and "samprate fi \<le> 48000"
    and "nChans fi = 1 \<or> nChans fi = 2"
    and "0 \<le> outputSamps fi" and "outputSamps fi \<le> 2304"
  shows "frame_duration_ms fi = Inr ((outputSamps fi * 1000) sdiv (samprate fi * nChans fi))"
proof -
  have n: "int_ok (outputSamps fi * 1000)"
    using assms(4,5) by (simp add: int_ok_def)
  have m: "int_ok (samprate fi * nChans fi)" "samprate fi * nChans fi \<noteq> 0"
    using assms(1,2,3) by (auto simp add: int_ok_def)
  from n assms(4) m show ?thesis
    by (rule frame_duration_ms_in_range)
qed

text \<open>
  The test of line 876 looks at the two factors, not at their product. The division has a
  zero divisor exactly when both factors are non-zero and their product wraps around to
  zero, as for a rate and a channel count of 65536 each; no MP3 frame has such values.
\<close>

lemma decoded_frame_division_by_zero_iff:
  "decoded_frame fi pcm_buffer = FrameFault DivisionByZero \<longleftrightarrow>
     samprate fi \<noteq> 0 \<and> nChans fi \<noteq> 0 \<and> int_wrap (samprate fi * nChans fi) = 0"
  by (auto simp add: decoded_frame_def frame_duration_ms_def int_div_def
      split: sum.splits if_splits)

lemma decoded_frame_wrapped_divisor:
  "decoded_frame \<lparr>samprate = 65536, nChans = 65536, outputSamps = 1152\<rparr> pcm_buffer
     = FrameFault DivisionByZero"
  by (simp add: decoded_frame_def frame_duration_ms_def int_div_def int_wrap_def)

text \<open>
  Claim C9. A frame that reports a sample rate of zero or a channel count of zero is
  skipped before the duration is computed. Hence, for every frame whose product of rate and
  channel count fits into \<^verbatim>\<open>int\<close>, the division of the duration has no zero divisor: the
  frame does not end in a division by zero. Whenever a duration is computed, neither factor
  is zero and the duration is the truncated quotient by the non-zero divisor. For the
  values that an MP3 decoder reports (a rate up to 48000, one or two channels, up to 2304
  samples) the products fit and the duration is always computed.
\<close>

theorem decoded_frame_no_zero_division:
  "(samprate fi = 0 \<or> nChans fi = 0 \<longrightarrow> decoded_frame fi pcm_buffer = FrameSkipped) \<and>
   (int_ok (samprate fi * nChans fi) \<longrightarrow>
      decoded_frame fi pcm_buffer \<noteq> FrameFault DivisionByZero) \<and>
   (\<forall>d p. decoded_frame fi pcm_buffer = FramePlayed d p \<longrightarrow>
      samprate fi \<noteq> 0 \<and> nChans fi \<noteq> 0 \<and> int_wrap (samprate fi * nChans fi) \<noteq> 0 \<and>
      d = int_wrap (outputSamps fi * 1000) sdiv int_wrap (samprate fi * nChans fi)) \<and>
   (\<forall>d p. decoded_frame fi pcm_buffer = FramePlayed d p \<and>
      int_ok (samprate fi * nChans fi) \<and> int_ok (outputSamps fi * 1000) \<longrightarrow>
      samprate fi * nChans fi \<noteq> 0 \<and>
      d = (outputSamps fi * 1000) sdiv (samprate fi * nChans fi)) \<and>
   (0 < samprate fi \<and> samprate fi \<le> 48000 \<and> (nChans fi = 1 \<or> nChans fi = 2) \<and>
    0 \<le> outputSamps fi \<and> outputSamps fi \<le> 2304 \<longrightarrow>
      frame_duration_ms fi = Inr ((outputSamps fi * 1000) sdiv (samprate fi * nChans fi)) \<and>
      decoded_frame fi pcm_buffer \<noteq> FrameFault DivisionByZero)"
proof -
  have 1: "decoded_frame fi pcm_buffer = FrameSkipped" if "samprate fi = 0 \<or> nChans fi = 0"
    using that by (simp add: decoded_frame_def)
  have 2: "decoded_frame fi pcm_buffer \<noteq> FrameFault DivisionByZero"
    if "int_ok (samprate fi * nChans fi)"
    using frame_duration_ms_no_zero_division [of fi] that
    by (auto simp add: decoded_frame_def split: sum.splits if_splits)
  have 3: "samprate fi \<noteq> 0 \<and> nChans fi \<noteq> 0 \<and> int_wrap (samprate fi * nChans fi) \<noteq> 0 \<and>
      d = int_wrap (outputSamps fi * 1000) sdiv int_wrap (samprate fi * nChans fi)"
    if a: "decoded_frame fi pcm_buffer = FramePlayed d p" for d p
  proof -
    from a have nz: "samprate fi \<noteq> 0 \<and> nChans fi \<noteq> 0"
      by (auto simp add: decoded_frame_def split: if_splits)
    with a have "frame_duration_ms fi = Inr d"
      by (auto simp add: decoded_frame_def split: sum.splits if_splits)
    from frame_duration_ms_value [OF this] nz show ?thesis
      by simp
  qed
  have 4: "samprate fi * nChans fi \<noteq> 0 \<and>
      d = (outputSamps fi * 1000) sdiv (samprate fi * nChans fi)"
    if "decoded_frame fi pcm_buffer = FramePlayed d p"
      "int_ok (samprate fi * nChans fi)" "int_ok (outputSamps fi * 1000)" for d p
    using 3 [OF that(1)] that(2,3) by (simp add: int_wrap_ok)
  have 5: "frame_duration_ms fi = Inr ((outputSamps fi * 1000) sdiv (samprate fi * nChans fi)) \<and>
      decoded_frame fi pcm_buffer \<noteq> FrameFault DivisionByZero"
    if r: "0 < samprate fi \<and> samprate fi \<le> 48000 \<and> (nChans fi = 1 \<or> nChans fi = 2) \<and>
      0 \<le> outputSamps fi \<and> outputSamps fi \<le> 2304"
  proof -
    have "frame_duration_ms fi = Inr ((outputSamps fi * 1000) sdiv (samprate fi * nChans fi))"
      using r by (intro frame_duration_ms_mp3) simp_all
    moreover have "int_ok (samprate fi * nChans fi)"
      using r by (auto simp add: int_ok_def)
    ultimately show ?thesis
      using 2 by simp
  qed
  show ?thesis
    using 1 2 3 4 5 by blast
qed

theorem decoded_frame_no_zero_division_witness:
  "decoded_frame \<lparr>samprate = 0, nChans = 2, outputSamps = 2304\<rparr> [] = FrameSkipped \<and>
   decoded_frame \<lparr>samprate = 44100, nChans = 0, outputSamps = 2304\<rparr> [] = FrameSkipped \<and>
   decoded_frame \<lparr>samprate = 44100, nChans = 2, outputSamps = 2\<rparr> [100, 200] \<noteq> FrameFault DivisionByZero \<and>
   decoded_frame \<lparr>samprate = 44100, nChans = 2, outputSamps = 2\<rparr> [100, 200] = FramePlayed 0 (Some [150])"
proof -
  have "decoded_frame \<lparr>samprate = 44100, nChans = 2, outputSamps = 2\<rparr> [100, 200]
          = FramePlayed 0 (Some [150])"
    by (simp add: decoded_frame_def frame_duration_ms_def int_wrap_def int_div_def int_ok_def
        final_pcm_data_def stereo_to_mono_def signed_divide_int_def)
  then show ?thesis
    using decoded_frame_no_zero_division [of "\<lparr>samprate = 0, nChans = 2, outputSamps = 2304\<rparr>" "[]"]
      decoded_frame_no_zero_division [of "\<lparr>samprate = 44100, nChans = 0, outputSamps = 2304\<rparr>" "[]"]
      decoded_frame_no_zero_division [of "\<lparr>samprate = 44100, nChans = 2, outputSamps = 2\<rparr>" "[100, 200]"]
    by (simp add: int_ok_def)
qed

lemma sdiv_2_truncates: "(s :: int) sdiv 2 = (if 0 \<le> s then s div 2 else - ((- s) div 2))"
  by (auto simp add: signed_divide_int_def sgn_if)

lemma sint_average:
  fixes left right :: s16
  shows "sint (word_of_int ((sint left + sint right) sdiv 2) :: s16) = (sint left + sint right) sdiv 2"
proof -
  have l: "- (2 ^ 15) \<le> sint left" "sint left < 2 ^ 15"
    using sint_ge [of left] sint_lt [of left] by simp_all
  have r: "- (2 ^ 15) \<le> sint right" "sint right < 2 ^ 15"
    using sint_ge [of right] sint_lt [of right] by simp_all
  define a where "a = (sint left + sint right) sdiv 2"
  have "- (2 ^ 15) \<le> a" "a < 2 ^ 15"
    using l r unfolding a_def sdiv_2_truncates by auto
  then have "signed_take_bit 15 a = a"
    by (simp add: signed_take_bit_int_eq_self)
  then have "sint (word_of_int a :: s16) = a"
    by (simp add: sint_sbintrunc')
  then show ?thesis by (simp only: a_def)
qed

lemma stereo_to_mono_length: "length (stereo_to_mono n pcm_buffer) = nat n"
  by (simp add: stereo_to_mono_def)

lemma stereo_to_mono_nth:
  assumes "i < nat n"
  shows "sint (stereo_to_mono n pcm_buffer ! i) =
           (sint (pcm_buffer ! (2 * i)) + sint (pcm_buffer ! (2 * i + 1))) sdiv 2"
  using assms by (simp add: stereo_to_mono_def sint_average mult.commute)

text \<open>
  Claim C5. For a frame with two channels (whose samples lie within the buffer) the
  packet holds one sample for each interleaved pair, and that sample is (L + R) / 2 with the
  quotient truncated towards zero (no overflow occurs): the samples 100, 200 give 150 and
  the samples -100, -100 give -100. For one channel the decoded samples are passed on as they are. Every other channel
  count takes the same path as one channel: the samples are passed on as they are, and the
  frame is played, not rejected (a frame with zero channels never reaches this step).
\<close>

theorem downmix_stereo_average:
  "(nChans fi = 2 \<and> outputSamps fi \<le> int (length pcm_buffer) \<longrightarrow>
      length (final_pcm_data fi pcm_buffer) = nat (outputSamps fi sdiv 2) \<and>
      (\<forall>i < nat (outputSamps fi sdiv 2).
         sint (final_pcm_data fi pcm_buffer ! i) =
           (let s = sint (pcm_buffer ! (2 * i)) + sint (pcm_buffer ! (2 * i + 1))
            in if 0 \<le> s then s div 2 else - ((- s) div 2)))) \<and>
   final_pcm_data \<lparr>samprate = r, nChans = 2, outputSamps = 2\<rparr> [100, 200] = [150] \<and>
   final_pcm_data \<lparr>samprate = r, nChans = 2, outputSamps = 2\<rparr> [- 100, - 100] = [- 100] \<and>
   (nChans fi = 1 \<longrightarrow> final_pcm_data fi pcm_buffer = take (nat (outputSamps fi)) pcm_buffer) \<and>
   (nChans fi = 1 \<and> outputSamps fi = int (length pcm_buffer) \<longrightarrow>
      final_pcm_data fi pcm_buffer = pcm_buffer) \<and>
   (nChans fi \<noteq> 2 \<longrightarrow> final_pcm_data fi pcm_buffer = final_pcm_data (fi\<lparr>nChans := 1\<rparr>) pcm_buffer) \<and>
   (nChans fi \<noteq> 0 \<and> samprate fi \<noteq> 0 \<and> 0 < outputSamps fi \<and>
    outputSamps fi \<le> int (length pcm_buffer) \<and>
    int_ok (outputSamps fi * 1000) \<and> int_ok (samprate fi * nChans fi) \<longrightarrow>
      decoded_frame fi pcm_buffer =
        FramePlayed ((outputSamps fi * 1000) sdiv (samprate fi * nChans fi))
          (Some (final_pcm_data fi pcm_buffer)))"
proof -
  have stereo: "length (final_pcm_data fi pcm_buffer) = nat (outputSamps fi sdiv 2) \<and>
      (\<forall>i < nat (outputSamps fi sdiv 2).
         sint (final_pcm_data fi pcm_buffer ! i) =
           (let s = sint (pcm_buffer ! (2 * i)) + sint (pcm_buffer ! (2 * i + 1))
            in if 0 \<le> s then s div 2 else - ((- s) div 2)))"
    if "nChans fi = 2"
    using that stereo_to_mono_nth [of _ "outputSamps fi sdiv 2" pcm_buffer]
    by (simp add: final_pcm_data_def stereo_to_mono_length Let_def flip: sdiv_2_truncates)
  have ex1: "final_pcm_data \<lparr>samprate = r, nChans = 2, outputSamps = 2\<rparr> [100, 200] = [150]"
    by (simp add: final_pcm_data_def stereo_to_mono_def signed_divide_int_def)
  have ex2: "final_pcm_data \<lparr>samprate = r, nChans = 2, outputSamps = 2\<rparr> [- 100, - 100] = [- 100]"
    by (simp add: final_pcm_data_def stereo_to_mono_def signed_divide_int_def)
  have mono: "final_pcm_data fi pcm_buffer = take (nat (outputSamps fi)) pcm_buffer"
    if "nChans fi = 1"
    using that by (simp add: final_pcm_data_def)
  have other: "final_pcm_data fi pcm_buffer = final_pcm_data (fi\<lparr>nChans := 1\<rparr>) pcm_buffer"
    if "nChans fi \<noteq> 2"
    using that by (simp add: final_pcm_data_def)
  have played: "decoded_frame fi pcm_buffer =
        FramePlayed ((outputSamps fi * 1000) sdiv (samprate fi * nChans fi))
          (Some (final_pcm_data fi pcm_buffer))"
    if "nChans fi \<noteq> 0" "samprate fi \<noteq> 0" "0 < outputSamps fi"
      "int_ok (outputSamps fi * 1000)" "int_ok (samprate fi * nChans fi)"
      "outputSamps fi \<le> int (length pcm_buffer)"
  proof -
    have "frame_duration_ms fi = Inr ((outputSamps fi * 1000) sdiv (samprate fi * nChans fi))"
      using that(1,2,3,4,5) by (intro frame_duration_ms_in_range) simp_all
    then show ?thesis
      using that by (simp add: decoded_frame_def)
  qed
  show ?thesis
    using stereo ex1 ex2 mono other played by simp
qed

theorem downmix_stereo_average_witness:
  "final_pcm_data \<lparr>samprate = 44100, nChans = 2, outputSamps = 4\<rparr> [- 3, 0, 7, 8] = [- 1, 7] \<and>
   final_pcm_data \<lparr>samprate = 44100, nChans = 1, outputSamps = 2\<rparr> [5, - 6] = [5, - 6] \<and>
   final_pcm_data \<lparr>samprate = 44100, nChans = 6, outputSamps = 2\<rparr> [5, - 6] = [5, - 6] \<and>
   decoded_frame \<lparr>samprate = 44100, nChans = 6, outputSamps = 2\<rparr> [5, - 6]
     = FramePlayed 0 (Some [5, - 6])"
proof -
  have "final_pcm_data \<lparr>samprate = 44100, nChans = 2, outputSamps = 4\<rparr> [- 3, 0, 7, 8] = [- 1, 7]"
    by (simp add: final_pcm_data_def stereo_to_mono_def signed_divide_int_def upt_rec)
  then show ?thesis
    using downmix_stereo_average
        [of "\<lparr>samprate = 44100, nChans = 1, outputSamps = 2\<rparr>" "[5, - 6]"]
      downmix_stereo_average
        [of "\<lparr>samprate = 44100, nChans = 6, outputSamps = 2\<rparr>" "[5, - 6]"]
    by (simp add: int_ok_def signed_divide_int_def)
qed

subsection \<open>The chunk buffer\<close>

lemma clear_loop_Nil: "clear_loop cs = []"
  by (induction cs) simp_all

lemma size_t_add_exact:
  assumes "a + b < 2 ^ 32"
  shows "size_t_add a b = a + b"
  unfolding size_t_add_def using assms by (rule mod_less)

lemma size_t_sub_exact:
  assumes "c \<le> b" and "b < 2 ^ 32"
  shows "size_t_sub b c = b - c"
proof -
  have "c mod 2 ^ 32 = c"
    using assms by simp
  moreover have "b + 2 ^ 32 - c = (b - c) + 2 ^ 32"
    using assms by simp
  moreover have "b - c < 2 ^ 32"
    using assms by simp
  ultimately show ?thesis
    unfolding size_t_sub_def by (simp only: mod_add_self2 mod_less)
qed

lemma step_inv:
  assumes "cap + 4096 \<le> 2 ^ 32" "read_size_ok e" "buffer_inv cap s"
  shows "buffer_inv cap (buffer_step cap s e)"
proof (cases e)
  case (Push p n)
  show ?thesis
  proof (cases "buffer_size s < cap \<and> is_downloading s")
    case True
    have n: "n \<le> 4096"
      using assms(2) Push by simp
    have "buffer_size s + n < 2 ^ 32"
      using True n assms(1) by simp
    then have "size_t_add (buffer_size s) n = buffer_size s + n"
      by (rule size_t_add_exact)
    then show ?thesis
      using True n assms(3) Push
      by (simp add: buffer_inv_def queued_bytes_def download_push_def)
  next
    case False
    then show ?thesis
      using assms(3) Push by (auto simp add: download_push_def)
  qed
next
  case Pop
  show ?thesis
  proof (cases "audio_buffer s")
    case Nil
    then show ?thesis using assms Pop by (simp add: play_pop_def buffer_inv_def queued_bytes_def)
  next
    case (Cons c cs)
    then have "size_bytes c \<le> buffer_size s" using assms(3) by (simp add: buffer_inv_def queued_bytes_def)
    moreover have "buffer_size s < 2 ^ 32" using assms by (simp add: buffer_inv_def)
    ultimately have "size_t_sub (buffer_size s) (size_bytes c) = buffer_size s - size_bytes c"
      by (rule size_t_sub_exact)
    then show ?thesis using assms Pop Cons by (simp add: play_pop_def buffer_inv_def queued_bytes_def)
  qed
next
  case Clear
  then show ?thesis by (simp add: ClearAudioBuffer_def buffer_inv_def queued_bytes_def clear_loop_Nil)
next
  case (SetDownloading b)
  then show ?thesis using assms by (simp add: buffer_inv_def queued_bytes_def)
qed

lemma run_inv:
  assumes "cap + 4096 \<le> 2 ^ 32" "\<forall>e \<in> set es. read_size_ok e" "buffer_inv cap s"
  shows "buffer_inv cap (buffer_run cap s es)"
  using assms(2,3)
proof (induction es arbitrary: s)
  case Nil then show ?case by simp
next
  case (Cons e es)
  have "buffer_inv cap (buffer_step cap s e)"
    using Cons.prems by (intro step_inv [OF assms(1)]) simp_all
  then show ?case
    using Cons.IH Cons.prems by simp
qed

lemma run_append: "buffer_run cap s (es @ fs) = buffer_run cap (buffer_run cap s es) fs"
  by (induction es arbitrary: s) simp_all

lemma run_pushes:
  assumes "is_downloading s" and "0 < k \<longrightarrow> buffer_size s + (k - 1) * n < cap"
    and "buffer_size s + k * n < 2 ^ 32"
  shows "buffer_size (buffer_run cap s (replicate k (Push p n))) = buffer_size s + k * n \<and>
         is_downloading (buffer_run cap s (replicate k (Push p n)))"
  using assms
proof (induction k arbitrary: s)
  case 0
  then show ?case by simp
next
  case (Suc k)
  let ?t = "buffer_step cap s (Push p n)"
  have lt: "buffer_size s < cap"
    using Suc.prems(2) by simp
  have "buffer_size s + n < 2 ^ 32"
    using Suc.prems(3) by simp
  then have "size_t_add (buffer_size s) n = buffer_size s + n"
    by (rule size_t_add_exact)
  then have t: "buffer_size ?t = buffer_size s + n" "is_downloading ?t"
    using Suc.prems lt by (simp_all add: download_push_def)
  have "0 < k \<longrightarrow> buffer_size ?t + (k - 1) * n < cap"
    using Suc.prems(2) t(1) by (cases k) simp_all
  moreover have "buffer_size ?t + k * n < 2 ^ 32"
    using Suc.prems(3) t(1) by simp
  ultimately show ?case
    using Suc.IH [of ?t] t by simp
qed

lemma buffer_overshoot_any_capacity:
  fixes p :: 'p
  assumes "0 < cap" and "cap + 4096 \<le> 2 ^ 32"
  shows "buffer_size (buffer_run cap initial_buffer
           (SetDownloading True # replicate (cap - 1) (Push p 1) @ [Push p 4096])) = cap + 4095"
proof -
  let ?s = "buffer_step cap (initial_buffer :: 'p chunk_buffer) (SetDownloading True)"
  let ?t = "buffer_run cap ?s (replicate (cap - 1) (Push p 1))"
  have s: "buffer_size ?s = 0" "is_downloading ?s"
    by (simp_all add: initial_buffer_def)
  have "buffer_size ?t = buffer_size ?s + (cap - 1) * 1 \<and> is_downloading ?t"
  proof (rule run_pushes)
    show "is_downloading ?s" by (rule s(2))
    show "0 < cap - 1 \<longrightarrow> buffer_size ?s + (cap - 1 - 1) * 1 < cap"
      unfolding s(1) using assms(1) by simp
    show "buffer_size ?s + (cap - 1) * 1 < 2 ^ 32"
      unfolding s(1) using assms(2) by simp
  qed
  then have t: "buffer_size ?t = cap - 1" "is_downloading ?t"
    unfolding s(1) by simp_all
  have "cap - 1 + 4096 < (2::nat) ^ 32"
    using assms by simp
  then have "size_t_add (cap - 1) 4096 = cap - 1 + 4096"
    by (rule size_t_add_exact)
  then have "buffer_size (buffer_step cap ?t (Push p 4096)) = cap - 1 + 4096"
    using t assms(1) by (simp add: download_push_def)
  then show ?thesis
    using assms(1) by (simp add: run_append)
qed

text \<open>
  Claim C1, as amended. After every sequence of pushes, pops, clears and writes to the
  download flag, started from the state the constructor sets up, \<^verbatim>\<open>buffer_size_\<close> equals
  the sum of the sizes of the queued chunks, and it lies between 0 and
  \<^verbatim>\<open>MAX_BUFFER_SIZE\<close> + 4095: a chunk of up to 4096 bytes is queued whenever the total is
  below \<^verbatim>\<open>MAX_BUFFER_SIZE\<close> (and only then), so the total can pass the capacity by up to
  4095 bytes. The capacity is taken small enough for \<^verbatim>\<open>size_t\<close> not to wrap around.
\<close>

theorem buffer_total_invariant:
  assumes "MAX_BUFFER_SIZE + 4096 \<le> 2 ^ 32" and "\<forall>e \<in> set es. read_size_ok e"
  shows "buffer_size (buffer_run MAX_BUFFER_SIZE initial_buffer es) =
           sum_list (map size_bytes (audio_buffer (buffer_run MAX_BUFFER_SIZE initial_buffer es))) \<and>
         buffer_size (buffer_run MAX_BUFFER_SIZE initial_buffer es) \<le> MAX_BUFFER_SIZE + 4095 \<and>
         (\<forall>s p n s'. download_push MAX_BUFFER_SIZE p n s = (Pushed, s') \<longrightarrow>
            buffer_size s < MAX_BUFFER_SIZE)"
proof -
  have "buffer_inv MAX_BUFFER_SIZE (initial_buffer :: 'a chunk_buffer)"
    by (simp add: buffer_inv_def initial_buffer_def queued_bytes_def)
  then have "buffer_inv MAX_BUFFER_SIZE (buffer_run MAX_BUFFER_SIZE (initial_buffer :: 'a chunk_buffer) es)"
    by (rule run_inv [OF assms])
  moreover have "buffer_size s < MAX_BUFFER_SIZE"
    if "download_push MAX_BUFFER_SIZE p n s = (Pushed, s')" for s s' :: "'b chunk_buffer" and p n
    using that by (auto simp add: download_push_def split: if_splits)
  ultimately show ?thesis
    unfolding buffer_inv_def queued_bytes_def by blast
qed

theorem buffer_total_invariant_witness:
  "buffer_size (buffer_run 262144 initial_buffer
     [SetDownloading True, Push () 4096, Push () 100, Pop, Push () 7]) = 107 \<and>
   sum_list (map size_bytes (audio_buffer (buffer_run 262144 initial_buffer
     [SetDownloading True, Push () 4096, Push () 100, Pop, Push () 7]))) = 107"
proof -
  let ?r = "buffer_run 262144 (initial_buffer :: unit chunk_buffer)
     [SetDownloading True, Push () 4096, Push () 100, Pop, Push () 7]"
  have a: "(262144::nat) + 4096 \<le> 2 ^ 32"
    by simp
  have b: "\<forall>e \<in> set [SetDownloading True, Push () 4096, Push () 100, Pop, Push () 7]. read_size_ok e"
    by simp
  have c: "audio_buffer ?r = [\<lparr>data = (), size_bytes = 100\<rparr>, \<lparr>data = (), size_bytes = 7\<rparr>]"
    by (simp add: initial_buffer_def download_push_def play_pop_def size_t_add_exact
        size_t_sub_exact)
  have "buffer_size ?r = sum_list (map size_bytes (audio_buffer ?r))"
    using buffer_total_invariant [OF a b] by blast
  then have "buffer_size ?r = 107"
    unfolding c by simp
  then show ?thesis
    unfolding c by simp
qed

text \<open>
  Claim C1 as stated fails: with a capacity of 262144 bytes, one chunk of 1 byte followed by
  64 chunks of 4096 bytes are all queued (the total is below the capacity before each
  push), and the total is then 262145.
\<close>

theorem buffer_total_exceeds_capacity:
  "list_all read_size_ok (SetDownloading True # Push () 1 # replicate 64 (Push () 4096)) \<and>
   buffer_size (buffer_run 262144 initial_buffer
     (SetDownloading True # Push () 1 # replicate 64 (Push () 4096))) = 262145 \<and>
   \<not> buffer_size (buffer_run 262144 initial_buffer
     (SetDownloading True # Push () 1 # replicate 64 (Push () 4096))) \<le> 262144"
proof -
  let ?s = "buffer_step 262144 (buffer_step 262144 (initial_buffer :: unit chunk_buffer)
              (SetDownloading True)) (Push () 1)"
  have s: "buffer_size ?s = 1" "is_downloading ?s"
    by (simp_all add: initial_buffer_def download_push_def size_t_add_exact)
  have A: "buffer_run 262144 initial_buffer (SetDownloading True # Push () 1 # es) = buffer_run 262144 ?s es" for es
    by simp
  have B: "buffer_size (buffer_run 262144 ?s (replicate 64 (Push () 4096))) = buffer_size ?s + 64 * 4096"
  proof (rule conjunct1 [OF run_pushes])
    show "is_downloading ?s" by (rule s(2))
    show "0 < (64::nat) \<longrightarrow> buffer_size ?s + (64 - 1) * 4096 < 262144"
      unfolding s(1) by simp
    show "buffer_size ?s + 64 * 4096 < 2 ^ 32"
      unfolding s(1) by simp
  qed
  have C: "list_all read_size_ok (SetDownloading True # Push () 1 # replicate 64 (Push () 4096))"
    by (simp add: list_all_iff)
  show ?thesis
    unfolding A B s(1) using C by simp
qed

subsection \<open>The lyric matcher\<close>

lemma scan_lyrics_result:
  "(scan_lyrics ls t i new = new \<and> (length ls \<le> i \<or> t < fst (ls ! i))) \<or>
   (\<exists>j. scan_lyrics ls t i new = int j \<and> i \<le> j \<and> j < length ls \<and>
        (\<forall>k. i \<le> k \<and> k \<le> j \<longrightarrow> fst (ls ! k) \<le> t) \<and>
        (Suc j < length ls \<longrightarrow> t < fst (ls ! Suc j)))"
proof (induction ls t i new rule: scan_lyrics.induct)
  case (1 ls t i new)
  show ?case
  proof (cases "i < length ls \<and> fst (ls ! i) \<le> t")
    case False
    then show ?thesis
      by (subst scan_lyrics.simps) auto
  next
    case True
    then have eq: "scan_lyrics ls t i new = scan_lyrics ls t (Suc i) (int i)"
      by (subst scan_lyrics.simps) simp
    from "1.IH" True
    consider (stop) "scan_lyrics ls t (Suc i) (int i) = int i" "length ls \<le> Suc i \<or> t < fst (ls ! Suc i)"
      | (go) j where "scan_lyrics ls t (Suc i) (int i) = int j" "Suc i \<le> j" "j < length ls"
          "\<forall>k. Suc i \<le> k \<and> k \<le> j \<longrightarrow> fst (ls ! k) \<le> t"
          "Suc j < length ls \<longrightarrow> t < fst (ls ! Suc j)"
      by blast
    then show ?thesis
    proof cases
      case stop
      with True eq have "scan_lyrics ls t i new = int i \<and> i \<le> i \<and> i < length ls \<and>
        (\<forall>k. i \<le> k \<and> k \<le> i \<longrightarrow> fst (ls ! k) \<le> t) \<and>
        (Suc i < length ls \<longrightarrow> t < fst (ls ! Suc i))"
        by auto
      then show ?thesis by blast
    next
      case go
      have "\<forall>k. i \<le> k \<and> k \<le> j \<longrightarrow> fst (ls ! k) \<le> t"
        using go(4) True by (metis Suc_leI le_neq_implies_less)
      with go eq have "scan_lyrics ls t i new = int j \<and> i \<le> j \<and> j < length ls \<and>
        (\<forall>k. i \<le> k \<and> k \<le> j \<longrightarrow> fst (ls ! k) \<le> t) \<and>
        (Suc j < length ls \<longrightarrow> t < fst (ls ! Suc j))"
        by auto
      then show ?thesis by blast
    qed
  qed
qed

lemma sorted_fst_nth:
  assumes "sorted (map fst ls)" "i \<le> j" "j < length ls"
  shows "fst (ls ! i) \<le> fst (ls ! j)"
  using sorted_nth_mono [OF assms(1), of i j] assms(2,3) by simp

lemma scan_lyrics_last:
  assumes srt: "sorted (map fst ls)"
    and i: "i = 0 \<or> (i < length ls \<and> fst (ls ! i) \<le> t)"
  shows "last_line_at ls t (scan_lyrics ls t i (- 1))"
proof -
  from scan_lyrics_result [of ls t i "- 1"]
  consider (none) "scan_lyrics ls t i (- 1) = - 1" "length ls \<le> i \<or> t < fst (ls ! i)"
    | (some) j where "scan_lyrics ls t i (- 1) = int j" "i \<le> j" "j < length ls"
          "\<forall>k. i \<le> k \<and> k \<le> j \<longrightarrow> fst (ls ! k) \<le> t"
          "Suc j < length ls \<longrightarrow> t < fst (ls ! Suc j)"
    by blast
  then show ?thesis
  proof cases
    case none
    with i have i0: "i = 0" and first: "ls = [] \<or> t < fst (ls ! 0)"
      by auto
    have "t < fst (ls ! k)" if "k < length ls" for k
    proof -
      from that first have "t < fst (ls ! 0)" by auto
      also have "fst (ls ! 0) \<le> fst (ls ! k)"
        using sorted_fst_nth [OF srt _ that] by simp
      finally show ?thesis .
    qed
    with none(1) show ?thesis
      by (simp add: last_line_at_def)
  next
    case some
    have le: "fst (ls ! j) \<le> t"
      using some(2,4) by simp
    have after: "t < fst (ls ! k)" if "k < length ls" "j < k" for k
    proof -
      from that some(5) have "t < fst (ls ! Suc j)" by simp
      also have "fst (ls ! Suc j) \<le> fst (ls ! k)"
        using sorted_fst_nth [OF srt _ that(1)] that(2) by simp
      finally show ?thesis .
    qed
    show ?thesis
      unfolding last_line_at_def some(1)
      using some(3) le after by auto
  qed
qed

lemma UpdateLyricDisplay_index:
  assumes "lyrics s \<noteq> []"
  shows "current_lyric_index (UpdateLyricDisplay t s) =
           scan_lyrics (lyrics s) t
             (if current_lyric_index s \<ge> 0 then nat (current_lyric_index s) else 0) (- 1)"
  using assms by (simp add: UpdateLyricDisplay_def Let_def)

lemma UpdateLyricDisplay_lyrics: "lyrics (UpdateLyricDisplay t s) = lyrics s"
  by (simp add: UpdateLyricDisplay_def Let_def)

lemma scan_lyrics_none:
  assumes "\<forall>k < length ls. t < fst (ls ! k)"
  shows "scan_lyrics ls t i new = new"
  using assms by (subst scan_lyrics.simps) auto

lemma UpdateLyricDisplay_message:
  assumes "lyrics s \<noteq> []" and "display_present s"
    and "current_lyric_index (UpdateLyricDisplay t s) \<noteq> current_lyric_index s"
  shows "chat_messages (UpdateLyricDisplay t s) =
           chat_messages s @
             [if 0 \<le> current_lyric_index (UpdateLyricDisplay t s) \<and>
                 current_lyric_index (UpdateLyricDisplay t s) < int (length (lyrics s))
              then snd (lyrics s ! nat (current_lyric_index (UpdateLyricDisplay t s))) else []]"
  using assms by (auto simp add: UpdateLyricDisplay_def Let_def split: if_splits)

lemma UpdateLyricDisplay_no_message:
  assumes "\<not> display_present s \<or>
           current_lyric_index (UpdateLyricDisplay t s) = current_lyric_index s"
  shows "chat_messages (UpdateLyricDisplay t s) = chat_messages s"
  using assms by (auto simp add: UpdateLyricDisplay_def Let_def split: if_splits)

lemma UpdateLyricDisplay_last_line:
  assumes "sorted (map fst (lyrics s))" and "lyrics s \<noteq> []"
    and "current_lyric_index s < 0 \<or>
            (current_lyric_index s < int (length (lyrics s)) \<and>
             fst (lyrics s ! nat (current_lyric_index s)) \<le> t)"
  shows "last_line_at (lyrics s) t (current_lyric_index (UpdateLyricDisplay t s))"
proof -
  let ?i = "if current_lyric_index s \<ge> 0 then nat (current_lyric_index s) else 0"
  have "?i = 0 \<or> (?i < length (lyrics s) \<and> fst (lyrics s ! ?i) \<le> t)"
    using assms(3) by auto
  from scan_lyrics_last [OF assms(1) this]
  show ?thesis
    by (simp only: UpdateLyricDisplay_index [OF assms(2)])
qed

text \<open>
  Claim C3, as amended. For a non-empty list sorted by timestamp: when the last matched
  index is none, or is a line whose timestamp is at or before the current time (the play
  time has not gone back behind the last matched line), the new index is the last line
  whose timestamp is at or before the current time, or none when there is no such line.
  This is the case whenever the last matched index was right for an earlier time, so the
  index stays right as long as the time does not decrease. Whatever the last matched index
  is, the new index is none when no line has a timestamp at or before the current time.
  When the index changes and there is a display, the display is sent the text of the new
  line, or the empty text for none; when the index does not change (as when it was none
  and stays none) or there is no display, nothing is sent. With lines at 0, 1000 and 2000 ms
  the time 1500 selects the line at 1000 ms, and the time -100 selects none.
\<close>

theorem UpdateLyricDisplay_selects_last_line:
  assumes "sorted (map fst (lyrics s))" and "lyrics s \<noteq> []"
  shows "(current_lyric_index s < 0 \<or>
            (current_lyric_index s < int (length (lyrics s)) \<and>
             fst (lyrics s ! nat (current_lyric_index s)) \<le> t) \<longrightarrow>
          last_line_at (lyrics s) t (current_lyric_index (UpdateLyricDisplay t s))) \<and>
         (\<forall>t0. last_line_at (lyrics s) t0 (current_lyric_index s) \<and> t0 \<le> t \<longrightarrow>
          last_line_at (lyrics s) t (current_lyric_index (UpdateLyricDisplay t s))) \<and>
         ((\<forall>k < length (lyrics s). t < fst (lyrics s ! k)) \<longrightarrow>
          current_lyric_index (UpdateLyricDisplay t s) = - 1) \<and>
         (display_present s \<and>
          current_lyric_index (UpdateLyricDisplay t s) \<noteq> current_lyric_index s \<longrightarrow>
          chat_messages (UpdateLyricDisplay t s) =
            chat_messages s @
              [if 0 \<le> current_lyric_index (UpdateLyricDisplay t s) \<and>
                  current_lyric_index (UpdateLyricDisplay t s) < int (length (lyrics s))
               then snd (lyrics s ! nat (current_lyric_index (UpdateLyricDisplay t s))) else []]) \<and>
         (\<not> display_present s \<or>
          current_lyric_index (UpdateLyricDisplay t s) = current_lyric_index s \<longrightarrow>
          chat_messages (UpdateLyricDisplay t s) = chat_messages s) \<and>
         lyrics (UpdateLyricDisplay t s) = lyrics s"
proof -
  have 1: "last_line_at (lyrics s) t (current_lyric_index (UpdateLyricDisplay t s))"
    if "current_lyric_index s < 0 \<or>
            (current_lyric_index s < int (length (lyrics s)) \<and>
             fst (lyrics s ! nat (current_lyric_index s)) \<le> t)"
    using assms that by (rule UpdateLyricDisplay_last_line)
  have 2: "last_line_at (lyrics s) t (current_lyric_index (UpdateLyricDisplay t s))"
    if "last_line_at (lyrics s) t0 (current_lyric_index s)" "t0 \<le> t" for t0
  proof -
    have "current_lyric_index s < 0 \<or>
            (current_lyric_index s < int (length (lyrics s)) \<and>
             fst (lyrics s ! nat (current_lyric_index s)) \<le> t)"
      using that by (auto simp add: last_line_at_def split: if_splits)
    then show ?thesis by (rule 1)
  qed
  have 3: "current_lyric_index (UpdateLyricDisplay t s) = - 1"
    if "\<forall>k < length (lyrics s). t < fst (lyrics s ! k)"
    using that by (simp only: UpdateLyricDisplay_index [OF assms(2)] scan_lyrics_none)
  have 4: "chat_messages (UpdateLyricDisplay t s) =
            chat_messages s @
              [if 0 \<le> current_lyric_index (UpdateLyricDisplay t s) \<and>
                  current_lyric_index (UpdateLyricDisplay t s) < int (length (lyrics s))
               then snd (lyrics s ! nat (current_lyric_index (UpdateLyricDisplay t s))) else []]"
    if "display_present s"
      "current_lyric_index (UpdateLyricDisplay t s) \<noteq> current_lyric_index s"
    using assms(2) that by (rule UpdateLyricDisplay_message)
  have 5: "chat_messages (UpdateLyricDisplay t s) = chat_messages s"
    if "\<not> display_present s \<or>
          current_lyric_index (UpdateLyricDisplay t s) = current_lyric_index s"
    using that by (rule UpdateLyricDisplay_no_message)
  show ?thesis
    using 1 2 3 4 5 UpdateLyricDisplay_lyrics [of t s] by blast
qed

theorem UpdateLyricDisplay_selects_last_line_witness:
  "current_lyric_index (UpdateLyricDisplay 1500
     \<lparr>lyrics = [(0, ''a''), (1000, ''b''), (2000, ''c'')], current_lyric_index = - 1,
      display_present = True, chat_messages = []\<rparr>) = 1 \<and>
   chat_messages (UpdateLyricDisplay 1500
     \<lparr>lyrics = [(0, ''a''), (1000, ''b''), (2000, ''c'')], current_lyric_index = - 1,
      display_present = True, chat_messages = []\<rparr>) = [''b''] \<and>
   chat_messages (UpdateLyricDisplay (- 100)
     \<lparr>lyrics = [(0, ''a''), (1000, ''b''), (2000, ''c'')], current_lyric_index = - 1,
      display_present = True, chat_messages = []\<rparr>) = [] \<and>
   chat_messages (UpdateLyricDisplay (- 100)
     \<lparr>lyrics = [(0, ''a''), (1000, ''b''), (2000, ''c'')], current_lyric_index = 1,
      display_present = True, chat_messages = []\<rparr>) = [[]] \<and>
   current_lyric_index (UpdateLyricDisplay (- 100)
     \<lparr>lyrics = [(0, ''a''), (1000, ''b''), (2000, ''c'')], current_lyric_index = 1,
      display_present = True, chat_messages = []\<rparr>) = - 1"
proof -
  let ?ls = "[(0, ''a''), (1000, ''b''), (2000, ''c'')] :: (int \<times> string) list"
  let ?s = "\<lparr>lyrics = ?ls, current_lyric_index = - 1, display_present = True, chat_messages = []\<rparr>"
  let ?s1 = "\<lparr>lyrics = ?ls, current_lyric_index = 1, display_present = True, chat_messages = []\<rparr>"
  have srt: "sorted (map fst (lyrics ?s))" "lyrics ?s \<noteq> []"
    "sorted (map fst (lyrics ?s1))" "lyrics ?s1 \<noteq> []"
    by simp_all
  have "last_line_at ?ls 1500 (current_lyric_index (UpdateLyricDisplay 1500 ?s))"
    using UpdateLyricDisplay_selects_last_line [OF srt(1,2), of 1500] by simp
  then have 1: "current_lyric_index (UpdateLyricDisplay 1500 ?s) = 1"
    by (auto simp add: last_line_at_def nth_Cons' All_less_Suc numeral_3_eq_3 split: if_splits)
  have 3: "chat_messages (UpdateLyricDisplay 1500 ?s) = [''b'']"
    using UpdateLyricDisplay_selects_last_line [OF srt(1,2), of 1500] 1 by simp
  have "\<forall>k < length (lyrics ?s1). - 100 < fst (lyrics ?s1 ! k)"
    by (simp add: nth_Cons' All_less_Suc numeral_3_eq_3)
  then have 2: "current_lyric_index (UpdateLyricDisplay (- 100) ?s1) = - 1"
    using UpdateLyricDisplay_selects_last_line [OF srt(3,4), of "- 100"] by blast
  have 4: "chat_messages (UpdateLyricDisplay (- 100) ?s1) = [[]]"
    using UpdateLyricDisplay_selects_last_line [OF srt(3,4), of "- 100"] 2 by simp
  have "\<forall>k < length (lyrics ?s). - 100 < fst (lyrics ?s ! k)"
    by (simp add: nth_Cons' All_less_Suc numeral_3_eq_3)
  then have "current_lyric_index (UpdateLyricDisplay (- 100) ?s) = - 1"
    using UpdateLyricDisplay_selects_last_line [OF srt(1,2), of "- 100"] by blast
  then have 5: "chat_messages (UpdateLyricDisplay (- 100) ?s) = []"
    using UpdateLyricDisplay_selects_last_line [OF srt(1,2), of "- 100"] by simp
  from 1 2 3 4 5 show ?thesis by simp
qed

text \<open>
  Claim C3 as stated fails when the time lies before the last matched line: with lines at
  0, 1000 and 2000 ms and the last matched index 2, the time 1500 gives no line, although the
  line at 1000 ms has a timestamp at or before 1500.
\<close>

theorem UpdateLyricDisplay_time_regress:
  "sorted (map fst [(0 :: int, ''a''), (1000, ''b''), (2000, ''c'')]) \<and>
   fst ([(0 :: int, ''a''), (1000, ''b''), (2000, ''c'')] ! 1) \<le> 1500 \<and>
   current_lyric_index (UpdateLyricDisplay 1500
     \<lparr>lyrics = [(0, ''a''), (1000, ''b''), (2000, ''c'')], current_lyric_index = 2,
      display_present = True, chat_messages = []\<rparr>) = - 1 \<and>
   \<not> last_line_at [(0, ''a''), (1000, ''b''), (2000, ''c'')] 1500
       (current_lyric_index (UpdateLyricDisplay 1500
         \<lparr>lyrics = [(0, ''a''), (1000, ''b''), (2000, ''c'')], current_lyric_index = 2,
          display_present = True, chat_messages = []\<rparr>))"
proof -
  have "current_lyric_index (UpdateLyricDisplay 1500
     \<lparr>lyrics = [(0, ''a''), (1000, ''b''), (2000, ''c'')], current_lyric_index = 2,
      display_present = True, chat_messages = []\<rparr>) = - 1"
    by (simp add: UpdateLyricDisplay_def Let_def scan_lyrics.simps)
  moreover have "\<not> last_line_at [(0, ''a''), (1000, ''b''), (2000, ''c'')] 1500 (- 1)"
    by (auto simp add: last_line_at_def)
  ultimately show ?thesis by simp
qed

subsection \<open>The lyric parser\<close>

text \<open>The equations that evaluate the parser on a given line.\<close>

lemmas parser_eval =
  to_float32_def round_binary_def floor_log2_def bit_length.simps round_half_even_def
  at_least_pow2_def Let_def float32_mul_def float32_to_int_def int_ok_def signed_divide_int_def
  isdigit_def isspace_def tolower_def isxdigit_def digit_value_def xdigit_value_def
  decimal_value_def hex_value_def sign_prefix_def stoi_def exponent_part_def fraction_part_def
  float32_underflow_def strtof_value_def scaled_float32_def stof_decimal_def stof_hex_def stof_def timestamp_ms_def int_mul_def int_add_def
  strip_cr_def timed_line_def parse_line_def ParseLyrics_def

text \<open>
  Rounding goes to a nearest multiple: twice the distance between \<open>n\<close> and the rounded
  quotient times \<open>d\<close> is at most \<open>d\<close>.
\<close>

lemma round_half_even_nearest:
  assumes "0 < d"
  shows "\<bar>2 * (n - round_half_even n d * d)\<bar> \<le> d"
proof -
  define q where "q = n div d"
  define r where "r = n mod d"
  have n: "n = q * d + r"
    by (simp add: q_def r_def)
  have r: "0 \<le> r" "r < d"
    using assms by (simp_all add: r_def)
  have "round_half_even n d = q \<and> 2 * r \<le> d \<or> round_half_even n d = q + 1 \<and> d \<le> 2 * r"
    by (auto simp add: round_half_even_def Let_def q_def r_def)
  then show ?thesis
  proof
    assume a: "round_half_even n d = q \<and> 2 * r \<le> d"
    then have "n - round_half_even n d * d = r"
      using n by simp
    then show ?thesis
      using a r by simp
  next
    assume a: "round_half_even n d = q + 1 \<and> d \<le> 2 * r"
    then have "n - round_half_even n d * d = r - d"
      using n by (simp add: algebra_simps)
    then show ?thesis
      using a r by simp
  qed
qed

text \<open>
  The conversion at the ends of the range of binary32: values that underflow (to the least
  subnormal number and to zero), the least subnormal and the least normal number written
  exactly, the greatest finite number, and a value that rounds beyond it. A line whose
  seconds underflow is dropped.
\<close>

lemma stof_range_examples:
  "stof ''1e-45'' = StofThrows \<and>
   stof ''1e-400'' = StofThrows \<and>
   stof ''0x1p-149'' = StofValue (Finite 1 (- 149)) \<and>
   stof ''0x1p-126'' = StofValue (Finite 8388608 (- 149)) \<and>
   stof ''0e-400'' = StofValue (Finite 0 0) \<and>
   stof ''3.4028235e38'' = StofValue (Finite 16777215 104) \<and>
   stof ''3.4028236e38'' = StofThrows \<and>
   parse_line ''[00:1e-45]Hello'' = LineIgnored \<and>
   parse_line ''[00:1e-400]Hello'' = LineIgnored"
  by (simp add: parser_eval)

text \<open>
  The product is rounded before it is truncated, so the timestamp can lie below the decimal
  value of the tag: 32.01 is read as the float 8391229 / 2 ^ 18, a little less than 32.01,
  and its product with 1000 is rounded to 16389119 / 2 ^ 9, a little less than 32010.
\<close>

lemma parse_line_float_product:
  "parse_line ''[00:32.01]Hello'' = LineAppended 32009 ''Hello'' \<and>
   stof ''32.01'' = StofValue (Finite 8391229 (- 18)) \<and>
   float32_mul (Finite 8391229 (- 18)) (Finite 1000 0) = Finite 16389119 (- 9)"
  by (simp add: parser_eval)

lemma find_char_Some:
  "find_char s c = Some i \<Longrightarrow> i < length s \<and> s ! i = c \<and> c \<notin> set (take i s)"
proof (induction s arbitrary: i)
  case Nil
  then show ?case by simp
next
  case (Cons x xs)
  show ?case
  proof (cases "x = c")
    case True
    with Cons.prems show ?thesis by simp
  next
    case False
    with Cons.prems obtain j where j: "find_char xs c = Some j" "i = Suc j" by auto
    from Cons.IH [OF j(1)] False j(2) show ?thesis by simp
  qed
qed

lemma find_char_fresh: "c \<notin> set u \<Longrightarrow> find_char (u @ c # v) c = Some (length u)"
  by (induction u) auto

lemma find_char_None: "find_char s c = None \<longleftrightarrow> c \<notin> set s"
  by (induction s) auto

lemma strip_cr_length: "length (strip_cr l) \<le> length l"
  by (simp add: strip_cr_def)

lemma strip_cr_append_cr: "strip_cr (l @ [CHR 0x0D]) = l"
  by (simp add: strip_cr_def)

lemma strip_cr_id: "l = [] \<or> last l \<noteq> CHR 0x0D \<Longrightarrow> strip_cr l = l"
  by (auto simp add: strip_cr_def)

lemma parse_line_short:
  assumes "length raw \<le> 10"
  shows "parse_line raw = LineIgnored"
proof -
  have "length (strip_cr raw) \<le> 10"
    using strip_cr_length [of raw] assms by simp
  then show ?thesis
    by (simp add: parse_line_def Let_def)
qed

lemma parse_line_tagged:
  assumes line: "line = ''['' @ l @ '':'' @ r @ '']'' @ content"
    and long: "10 < length line"
    and l: "CHR '':'' \<notin> set l" "CHR '']'' \<notin> set l"
    and r: "CHR '']'' \<notin> set r"
    and cr: "strip_cr raw = line"
  shows "parse_line raw = (if list_all isdigit l then timed_line l r content else LineIgnored)"
proof -
  have close: "find_char line CHR '']'' = Some (Suc (length l + Suc (length r)))"
  proof -
    have "CHR '']'' \<notin> set (''['' @ l @ '':'' @ r)"
      using l r by simp
    from find_char_fresh [OF this, of content]
    show ?thesis by (simp add: line)
  qed
  have tag: "take (Suc (length l + Suc (length r)) - 1) (drop 1 line) = l @ '':'' @ r"
    by (simp add: line)
  have content: "drop (Suc (length l + Suc (length r)) + 1) line = content"
    by (simp add: line)
  have colon: "find_char (l @ '':'' @ r) CHR '':'' = Some (length l)"
    using find_char_fresh [OF l(1), of r] by simp
  have left: "take (length l) (l @ '':'' @ r) = l"
    by simp
  have right: "drop (length l + 1) (l @ '':'' @ r) = r"
    by simp
  have guard: "(line = []) = False" "(length line > 10 \<and> line ! 0 = CHR ''['') = True"
    using long by (simp_all add: line)
  show ?thesis
    unfolding parse_line_def cr
    by (simp only: Let_def guard if_False if_True close option.case tag content colon left right)
      simp
qed


lemma isdigit_not_space: "isdigit c \<Longrightarrow> \<not> isspace c"
  by (auto simp add: isdigit_def isspace_def)

lemma isdigit_not_sign: "isdigit c \<Longrightarrow> c \<noteq> CHR ''-'' \<and> c \<noteq> CHR ''+''"
  by (auto simp add: isdigit_def)

lemma digit_value_nonneg: "isdigit c \<Longrightarrow> 0 \<le> digit_value c"
  by (auto simp add: isdigit_def digit_value_def)

lemma foldl_digits_nonneg:
  "list_all isdigit ds \<Longrightarrow> 0 \<le> a \<Longrightarrow> 0 \<le> foldl (\<lambda>acc c. acc * 10 + digit_value c) a ds"
proof (induction ds arbitrary: a)
  case Nil
  then show ?case by simp
next
  case (Cons d ds)
  then have "0 \<le> a * 10 + digit_value d"
    using digit_value_nonneg [of d] by simp
  with Cons show ?case by simp
qed

lemma decimal_value_nonneg: "list_all isdigit ds \<Longrightarrow> 0 \<le> decimal_value ds"
  unfolding decimal_value_def by (rule foldl_digits_nonneg) simp_all

lemma stoi_digits:
  assumes "ds \<noteq> []" and "list_all isdigit ds"
  shows "stoi ds = (if decimal_value ds < 2 ^ 31 then StoiValue (decimal_value ds) else StoiThrows)"
proof -
  from assms obtain d rest where ds: "ds = d # rest" "isdigit d"
    by (cases ds) auto
  have 1: "dropWhile isspace ds = ds"
    using ds isdigit_not_space by simp
  have 2: "sign_prefix ds = (False, ds)"
    using ds isdigit_not_sign [of d] by (simp add: sign_prefix_def)
  have 3: "takeWhile isdigit ds = ds"
    using assms(2) by (simp add: list_all_iff)
  have 4: "0 \<le> decimal_value ds"
    using assms(2) by (rule decimal_value_nonneg)
  show ?thesis
    unfolding stoi_def 1 2 using assms(1) 4 by (simp add: 3 int_ok_def)
qed

lemma timestamp_ms_Inr:
  assumes "int_ok (minutes * 60)" and "int_ok (minutes * 60 * 1000)"
    and "float32_to_int (float32_mul seconds (Finite 1000 0)) = Inr c"
    and "int_ok (minutes * 60000 + c)"
  shows "timestamp_ms minutes seconds = Inr (minutes * 60000 + c)"
proof -
  have "minutes * 60 * 1000 = minutes * 60000"
    by simp
  then show ?thesis
    using assms by (simp add: timestamp_ms_def int_mul_def int_add_def mult.commute)
qed

lemma float32_to_int_truncates:
  assumes "float32_to_int (Finite m e) = Inr c"
  shows "c = (if 0 \<le> e then m * 2 ^ nat e else sgn m * (\<bar>m\<bar> div 2 ^ nat (- e)))"
  using assms
  by (auto simp add: float32_to_int_def Let_def signed_divide_int_def split: if_splits)

lemma push_back_all_Inr:
  "push_back_all acc rs = Inr ls \<Longrightarrow>
     ls = acc @ concat (map (\<lambda>r. case r of LineAppended t c \<Rightarrow> [(t, c)] | _ \<Rightarrow> []) rs)"
proof (induction acc rs arbitrary: ls rule: push_back_all.induct)
  case (1 ls)
  then show ?case by simp
next
  case (2 ls t c rs)
  then show ?case by simp
next
  case (3 ls rs)
  then show ?case by simp
next
  case (4 ls f rs)
  then show ?case by simp
qed

lemma push_back_all_no_fault:
  "(\<forall>r \<in> set rs. \<forall>f. r \<noteq> LineFault f) \<Longrightarrow> \<exists>ls. push_back_all acc rs = Inr ls"
proof (induction acc rs rule: push_back_all.induct)
  case (1 ls)
  then show ?case by simp
next
  case (2 ls t c rs)
  then show ?case by simp
next
  case (3 ls rs)
  then show ?case by simp
next
  case (4 ls f rs)
  then show ?case by simp
qed

lemma sorted_pairs_fst:
  fixes ls :: "(int \<times> string) list"
  assumes "sorted ls"
  shows "sorted (map fst ls)"
proof -
  have "fst x \<le> fst y" if "x \<le> y" for x y :: "int \<times> string"
    using that by (cases x, cases y) (auto simp add: less_eq_prod_def)
  then show ?thesis
    using assms by (simp add: sorted_map) (erule sorted_wrt_mono_rel [rotated], blast)
qed

lemma ParseLyrics_sorted:
  assumes "ParseLyrics lyric_content = Inr ls"
  shows "sorted ls"
  using assms by (auto simp add: ParseLyrics_def split: sum.splits)

lemma push_back_all_ignored:
  "(\<forall>r \<in> set rs. r = LineIgnored) \<Longrightarrow> push_back_all acc rs = Inr acc"
  by (induction acc rs rule: push_back_all.induct) simp_all

text \<open>
  Claim C10. A line of 10 or fewer characters is dropped: the parser appends no pair for
  it, also when it is a well-formed timestamped line such as \<^verbatim>\<open>[0:1.0]Hi\<close> (the same
  tag with a longer text is parsed). A content made of such lines only leaves the
  collection empty.
\<close>

theorem ParseLyrics_short_lines_dropped:
  "(length raw \<le> 10 \<longrightarrow> parse_line raw = LineIgnored) \<and>
   parse_line ''[0:1.0]Hi'' = LineIgnored \<and>
   parse_line ''[0:1.0]Hi there'' = LineAppended 1000 ''Hi there'' \<and>
   ((\<forall>raw \<in> set (getlines [] lyric_content). length raw \<le> 10) \<longrightarrow>
      ParseLyrics lyric_content = Inr [])"
proof -
  have 1: "parse_line ''[0:1.0]Hi'' = LineIgnored"
    by (rule parse_line_short) simp
  have 2: "parse_line ''[0:1.0]Hi there'' = LineAppended 1000 ''Hi there''"
    by (simp add: parser_eval)
  have 3: "ParseLyrics lyric_content = Inr []"
    if "\<forall>raw \<in> set (getlines [] lyric_content). length raw \<le> 10"
  proof -
    have "\<forall>r \<in> set (map parse_line (getlines [] lyric_content)). r = LineIgnored"
      using that parse_line_short by auto
    then have "push_back_all [] (map parse_line (getlines [] lyric_content)) = Inr []"
      by (rule push_back_all_ignored)
    then show ?thesis
      by (simp add: ParseLyrics_def)
  qed
  show ?thesis
    using parse_line_short [of raw] 1 2 3 by blast
qed

theorem ParseLyrics_short_lines_dropped_witness:
  "parse_line ''[00:02.00]'' = LineIgnored \<and>
   ParseLyrics (''[0:1.0]Hi'' @ [CHR 0x0A] @ ''[00:02.00]'') = Inr []"
proof -
  have a: "length ''[00:02.00]'' \<le> 10"
    by simp
  have b: "\<forall>raw \<in> set (getlines [] (''[0:1.0]Hi'' @ [CHR 0x0A] @ ''[00:02.00]'')). length raw \<le> 10"
    by simp
  show ?thesis
    using a b ParseLyrics_short_lines_dropped [of "''[00:02.00]''"
        "''[0:1.0]Hi'' @ [CHR 0x0A] @ ''[00:02.00]''"]
    by blast
qed


lemma parse_line_non_numeric:
  assumes "strip_cr raw = ''['' @ l @ '':'' @ r @ '']'' @ content"
    and "CHR '':'' \<notin> set l" and "CHR '']'' \<notin> set l" and "CHR '']'' \<notin> set r"
    and "\<not> list_all isdigit l"
  shows "parse_line raw = LineIgnored"
proof (cases "10 < length (strip_cr raw)")
  case True
  from parse_line_tagged [OF assms(1) _ assms(2,3,4) refl] True assms(1,5)
  show ?thesis by simp
next
  case False
  then show ?thesis
    by (simp add: parse_line_def Let_def)
qed

lemma parse_line_numeric:
  assumes shape: "strip_cr raw = ''['' @ l @ '':'' @ r @ '']'' @ content"
    and fresh: "CHR '':'' \<notin> set l" "CHR '']'' \<notin> set l" "CHR '']'' \<notin> set r"
    and long: "10 < length (strip_cr raw)"
    and digits: "l \<noteq> []" "list_all isdigit l"
    and minutes: "decimal_value l * 60000 < 2 ^ 31"
    and seconds: "stof r = StofValue seconds"
    and product: "float32_mul seconds (Finite 1000 0) = Finite p q"
    and c: "c = (if 0 \<le> q then p * 2 ^ nat q else sgn p * (\<bar>p\<bar> div 2 ^ nat (- q)))"
    and range: "int_ok c" "int_ok (decimal_value l * 60000 + c)"
  shows "parse_line raw = LineAppended (decimal_value l * 60000 + c) content"
proof -
  have nonneg: "0 \<le> decimal_value l"
    using digits(2) by (rule decimal_value_nonneg)
  have stoi: "stoi l = StoiValue (decimal_value l)"
    using stoi_digits [OF digits] nonneg minutes by simp
  have cast: "float32_to_int (float32_mul seconds (Finite 1000 0)) = Inr c"
    using range(1) unfolding product c
    by (cases "0 \<le> q") (simp_all add: float32_to_int_def Let_def signed_divide_int_def)
  have "int_ok (decimal_value l * 60)" "int_ok (decimal_value l * 60 * 1000)"
    using nonneg minutes by (simp_all add: int_ok_def)
  from this cast range(2)
  have "timestamp_ms (decimal_value l) seconds = Inr (decimal_value l * 60000 + c)"
    by (rule timestamp_ms_Inr)
  then have "timed_line l r content = LineAppended (decimal_value l * 60000 + c) content"
    by (simp add: timed_line_def stoi seconds)
  with parse_line_tagged [OF shape _ fresh refl] long shape digits(2)
  show ?thesis by simp
qed

text \<open>
  Claim C2, as amended. Take a line that, after the removal of a final carriage return,
  reads \<^verbatim>\<open>[l:r]content\<close>, with \<open>l\<close> the part of the tag before the first colon.
  When the line has more than 10 characters, \<open>l\<close> is a non-empty string of digits whose
  value in minutes fits into \<^verbatim>\<open>int\<close> as milliseconds, and \<^verbatim>\<open>stof\<close> converts \<open>r\<close>
  to the float \<open>seconds\<close>, the parser appends the pair of
  minutes * 60000 + trunc (seconds * 1000) and the content: the product is the float
  \<open>p * 2 ^ q\<close>, it is truncated towards zero (to \<open>c\<close>), and the results must fit into
  \<^verbatim>\<open>int\<close>. In particular \<^verbatim>\<open>[01:02.50]Hello\<close> yields 62500 and \<^verbatim>\<open>Hello\<close>. When
  \<open>l\<close> contains a character that is no digit, the line is dropped, as is
  \<^verbatim>\<open>[ar:Someone]\<close>. After parsing, the collection is sorted in ascending order of the
  timestamps, whatever the order of the lines was.
\<close>

theorem ParseLyrics_timestamped_lines:
  assumes "strip_cr raw = ''['' @ l @ '':'' @ r @ '']'' @ content"
    and "CHR '':'' \<notin> set l" and "CHR '']'' \<notin> set l" and "CHR '']'' \<notin> set r"
  shows "(10 < length (strip_cr raw) \<and> l \<noteq> [] \<and> list_all isdigit l \<and>
          decimal_value l * 60000 < 2 ^ 31 \<and>
          stof r = StofValue seconds \<and>
          float32_mul seconds (Finite 1000 0) = Finite p q \<and>
          c = (if 0 \<le> q then p * 2 ^ nat q else sgn p * (\<bar>p\<bar> div 2 ^ nat (- q))) \<and>
          int_ok c \<and> int_ok (decimal_value l * 60000 + c) \<longrightarrow>
            parse_line raw = LineAppended (decimal_value l * 60000 + c) content) \<and>
         (\<not> list_all isdigit l \<longrightarrow> parse_line raw = LineIgnored) \<and>
         parse_line ''[01:02.50]Hello'' = LineAppended 62500 ''Hello'' \<and>
         parse_line ''[ar:Someone]'' = LineIgnored \<and>
         (\<forall>ls. ParseLyrics lyric_content = Inr ls \<longrightarrow> sorted (map fst ls))"
proof -
  have 1: "parse_line ''[01:02.50]Hello'' = LineAppended 62500 ''Hello''"
    by (simp add: parser_eval)
  have 2: "parse_line ''[ar:Someone]'' = LineIgnored"
    by (simp add: parser_eval)
  have 3: "sorted (map fst ls)" if "ParseLyrics lyric_content = Inr ls" for ls
    using ParseLyrics_sorted [OF that] by (rule sorted_pairs_fst)
  show ?thesis
    using parse_line_numeric [OF assms, of seconds p q c] parse_line_non_numeric [OF assms]
      1 2 3
    by blast
qed

theorem ParseLyrics_timestamped_lines_witness:
  "parse_line ''[03:07.25]La la la'' = LineAppended 187250 ''La la la'' \<and>
   parse_line (''[ti:Song title]'' @ [CHR 0x0D]) = LineIgnored \<and>
   ParseLyrics (''[00:02.00]second'' @ [CHR 0x0A] @ ''[00:01.00]first'')
     = Inr [(1000, ''first''), (2000, ''second'')]"
proof -
  have s1: "strip_cr ''[03:07.25]La la la'' = ''['' @ ''03'' @ '':'' @ ''07.25'' @ '']'' @ ''La la la''"
    by (simp add: strip_cr_def)
  have f1: "CHR '':'' \<notin> set ''03''" "CHR '']'' \<notin> set ''03''" "CHR '']'' \<notin> set ''07.25''"
    by simp_all
  have h1: "10 < length (strip_cr ''[03:07.25]La la la'')" "''03'' \<noteq> []" "list_all isdigit ''03''"
      "decimal_value ''03'' * 60000 < 2 ^ 31"
    by (simp_all add: strip_cr_def isdigit_def decimal_value_def digit_value_def)
  have h2: "stof ''07.25'' = StofValue (Finite 15204352 (- 21))"
    by (simp add: parser_eval)
  have h3: "float32_mul (Finite 15204352 (- 21)) (Finite 1000 0) = Finite 14848000 (- 11)"
    by (simp add: parser_eval)
  have h4: "(7250 :: int) = (if 0 \<le> (- 11 :: int) then 14848000 * 2 ^ nat (- 11)
      else sgn 14848000 * (\<bar>14848000\<bar> div 2 ^ nat (- (- 11))))"
    by simp
  have h5: "int_ok 7250" "int_ok (decimal_value ''03'' * 60000 + 7250)"
    by (simp_all add: int_ok_def decimal_value_def digit_value_def)
  have a: "parse_line ''[03:07.25]La la la'' = LineAppended (decimal_value ''03'' * 60000 + 7250) ''La la la''"
    using ParseLyrics_timestamped_lines [OF s1 f1, of "Finite 15204352 (- 21)" 14848000 "- 11" 7250]
      h1 h2 h3 h4 h5
    by blast
  have s2: "strip_cr (''[ti:Song title]'' @ [CHR 0x0D]) = ''['' @ ''ti'' @ '':'' @ ''Song title'' @ '']'' @ []"
    by (simp add: strip_cr_def)
  have f2: "CHR '':'' \<notin> set ''ti''" "CHR '']'' \<notin> set ''ti''" "CHR '']'' \<notin> set ''Song title''"
    by simp_all
  have "\<not> list_all isdigit ''ti''"
    by (simp add: isdigit_def)
  then have b: "parse_line (''[ti:Song title]'' @ [CHR 0x0D]) = LineIgnored"
    using ParseLyrics_timestamped_lines [OF s2 f2] by blast
  have c: "ParseLyrics (''[00:02.00]second'' @ [CHR 0x0A] @ ''[00:01.00]first'')
     = Inr [(1000, ''first''), (2000, ''second'')]"
    by (simp add: parser_eval)
  from a b c show ?thesis
    by (simp add: decimal_value_def digit_value_def)
qed

text \<open>
  Claim C2 as stated fails. The line \<^verbatim>\<open>[00:01.9999]Hello\<close> gets the timestamp 1999: the
  product 1999.9 is truncated, where rounding would give 2000. The lines
  \<^verbatim>\<open>[01:xx]Hello world\<close> (seconds that \<^verbatim>\<open>stof\<close> rejects) and \<^verbatim>\<open>[1:02.5]Hi\<close> (10
  characters) have a numeric part before the colon and still yield no pair, and for
  \<^verbatim>\<open>[99999:00.00]Hello\<close> the product of the minutes overflows \<^verbatim>\<open>int\<close>.
\<close>

theorem ParseLyrics_truncates_and_drops:
  "parse_line ''[00:01.9999]Hello'' = LineAppended 1999 ''Hello'' \<and>
   0 * 60000 + round (1.9999 * 1000 :: real) = 2000 \<and>
   list_all isdigit ''01'' \<and> parse_line ''[01:xx]Hello world'' = LineIgnored \<and>
   list_all isdigit ''1'' \<and> parse_line ''[1:02.5]Hi'' = LineIgnored \<and>
   list_all isdigit ''99999'' \<and> parse_line ''[99999:00.00]Hello'' = LineFault SignedOverflow"
proof -
  have 1: "parse_line ''[00:01.9999]Hello'' = LineAppended 1999 ''Hello''"
    by (simp add: parser_eval)
  have 2: "0 * 60000 + round (1.9999 * 1000 :: real) = 2000"
    by (simp add: round_def)
  have 3: "parse_line ''[01:xx]Hello world'' = LineIgnored"
    by (simp add: parser_eval)
  have 4: "parse_line ''[1:02.5]Hi'' = LineIgnored"
    by (simp add: parser_eval)
  have 5: "parse_line ''[99999:00.00]Hello'' = LineFault SignedOverflow"
    by (simp add: parser_eval)
  have 6: "list_all isdigit ''01''" "list_all isdigit ''1''" "list_all isdigit ''99999''"
    by (simp_all add: isdigit_def)
  from 1 2 3 4 5 6 show ?thesis by simp
qed

lemma push_back_all_iff:
  "push_back_all acc rs = Inr ls \<longleftrightarrow>
     (\<forall>r \<in> set rs. \<forall>f. r \<noteq> LineFault f) \<and> ls = acc @ appended_pairs rs"
  unfolding appended_pairs_def
  by (induction acc rs arbitrary: ls rule: push_back_all.induct) auto

lemma mset_appended_pairs:
  assumes "mset rs = mset rs'"
  shows "mset (appended_pairs rs) = mset (appended_pairs rs')"
proof -
  define g :: "line_result \<Rightarrow> (int \<times> string) multiset"
    where "g = (\<lambda>r. mset (case r of LineAppended t c \<Rightarrow> [(t, c)] | _ \<Rightarrow> []))"
  have *: "mset (appended_pairs xs) = sum_mset (image_mset g (mset xs))" for xs
    by (induction xs) (simp_all add: appended_pairs_def g_def)
  show ?thesis
    unfolding * assms ..
qed

lemma sort_mset_cong:
  fixes xs ys :: "('a :: linorder) list"
  assumes "mset xs = mset ys"
  shows "sort xs = sort ys"
  using assms by (metis properties_for_sort mset_sort sorted_sort)

lemma ParseLyrics_permuted:
  assumes "ParseLyrics lyric_content = Inr ls"
    and "mset (getlines [] other) = mset (getlines [] lyric_content)"
  shows "ParseLyrics other = Inr ls"
proof -
  let ?rs = "map parse_line (getlines [] lyric_content)"
  let ?rs' = "map parse_line (getlines [] other)"
  from assms(1) obtain xs where xs: "push_back_all [] ?rs = Inr xs" "ls = sort xs"
    by (auto simp add: ParseLyrics_def split: sum.splits)
  have m: "mset ?rs' = mset ?rs"
    using assms(2) by (metis mset_map)
  then have "set ?rs' = set ?rs"
    by (rule mset_eq_setD)
  with xs(1) have "push_back_all [] ?rs' = Inr (appended_pairs ?rs')"
    by (simp add: push_back_all_iff)
  moreover have "sort (appended_pairs ?rs') = sort xs"
    using xs(1) mset_appended_pairs [OF m] by (intro sort_mset_cong) (simp add: push_back_all_iff)
  ultimately show ?thesis
    using xs(2) by (simp add: ParseLyrics_def)
qed

lemma sorted_pairs_nth:
  fixes ls :: "(int \<times> string) list"
  assumes "sorted ls" and "i < j" and "j < length ls"
  shows "fst (ls ! i) < fst (ls ! j) \<or> (fst (ls ! i) = fst (ls ! j) \<and> snd (ls ! i) \<le> snd (ls ! j))"
proof -
  have "ls ! i \<le> ls ! j"
    using assms by (simp add: sorted_nth_mono)
  then show ?thesis
    by (cases "ls ! i", cases "ls ! j") (auto simp add: less_eq_prod_def)
qed

text \<open>
  Claim C7, as amended. After parsing, lines with equal timestamps stand in the ascending
  order of their texts (compared as byte strings), not in their input order: the
  collection is sorted by timestamp and then by text, and a content with the same lines in
  another order gives the same collection.
\<close>

theorem ParseLyrics_equal_timestamps_by_text:
  assumes "ParseLyrics lyric_content = Inr ls"
  shows "(\<forall>i j. i < j \<and> j < length ls \<longrightarrow>
            fst (ls ! i) < fst (ls ! j) \<or>
            (fst (ls ! i) = fst (ls ! j) \<and> snd (ls ! i) \<le> snd (ls ! j))) \<and>
         (\<forall>other. mset (getlines [] other) = mset (getlines [] lyric_content) \<longrightarrow>
            ParseLyrics other = Inr ls)"
  using sorted_pairs_nth [OF ParseLyrics_sorted [OF assms]] ParseLyrics_permuted [OF assms]
  by blast

theorem ParseLyrics_equal_timestamps_by_text_witness:
  "ParseLyrics (''[00:01.00]Bravo'' @ [CHR 0x0A] @ ''[00:01.00]Alpha'')
     = Inr [(1000, ''Alpha''), (1000, ''Bravo'')] \<and>
   ParseLyrics (''[00:01.00]Alpha'' @ [CHR 0x0A] @ ''[00:01.00]Bravo'')
     = Inr [(1000, ''Alpha''), (1000, ''Bravo'')] \<and>
   ''Alpha'' \<le> ''Bravo''"
proof -
  let ?c = "''[00:01.00]Bravo'' @ [CHR 0x0A] @ ''[00:01.00]Alpha''"
  let ?d = "''[00:01.00]Alpha'' @ [CHR 0x0A] @ ''[00:01.00]Bravo''"
  let ?ls = "[(1000 :: int, ''Alpha''), (1000, ''Bravo'')]"
  have c: "ParseLyrics ?c = Inr ?ls"
    by (simp add: parser_eval)
  have m: "mset (getlines [] ?d) = mset (getlines [] ?c)"
    by simp
  have d: "ParseLyrics ?d = Inr ?ls"
    using ParseLyrics_equal_timestamps_by_text [OF c] m by blast
  from ParseLyrics_equal_timestamps_by_text [OF c]
  have "(0 :: nat) < 1 \<and> 1 < length ?ls \<longrightarrow>
      fst (?ls ! 0) < fst (?ls ! 1) \<or> (fst (?ls ! 0) = fst (?ls ! 1) \<and> snd (?ls ! 0) \<le> snd (?ls ! 1))"
    by blast
  then have "''Alpha'' \<le> ''Bravo''"
    by simp
  with c d show ?thesis by blast
qed

text \<open>
  Claim C7 as stated fails: the lines \<^verbatim>\<open>[00:01.00]Bravo\<close> and \<^verbatim>\<open>[00:01.00]Alpha\<close>, in
  this order, are appended in this order (and a stable sort by timestamp would keep it),
  but the collection after parsing has \<^verbatim>\<open>Alpha\<close> first.
\<close>

theorem ParseLyrics_sort_not_stable:
  "push_back_all [] (map parse_line (getlines []
      (''[00:01.00]Bravo'' @ [CHR 0x0A] @ ''[00:01.00]Alpha'')))
     = Inr [(1000, ''Bravo''), (1000, ''Alpha'')] \<and>
   sort_key fst [(1000 :: int, ''Bravo''), (1000, ''Alpha'')]
     = [(1000, ''Bravo''), (1000, ''Alpha'')] \<and>
   ParseLyrics (''[00:01.00]Bravo'' @ [CHR 0x0A] @ ''[00:01.00]Alpha'')
     = Inr [(1000, ''Alpha''), (1000, ''Bravo'')]"
proof -
  have 1: "push_back_all [] (map parse_line (getlines []
      (''[00:01.00]Bravo'' @ [CHR 0x0A] @ ''[00:01.00]Alpha'')))
     = Inr [(1000, ''Bravo''), (1000, ''Alpha'')]"
    by (simp add: parser_eval)
  have 2: "sort_key fst [(1000 :: int, ''Bravo''), (1000, ''Alpha'')]
     = [(1000, ''Bravo''), (1000, ''Alpha'')]"
    by simp
  have 3: "ParseLyrics (''[00:01.00]Bravo'' @ [CHR 0x0A] @ ''[00:01.00]Alpha'')
     = Inr [(1000, ''Alpha''), (1000, ''Bravo'')]"
    by (simp add: parser_eval)
  from 1 2 3 show ?thesis by blast
qed

subsection \<open>The lyric download\<close>

lemma retry_loop_fail:
  assumes "k < max_retries" and "attempt_fails (net k)"
  shows "retry_loop net url k = after_events (attempt_events url k (net k)) (retry_loop net url (k + 1))"
proof (cases "net k")
  case NoClient
  then show ?thesis
    using assms(1) by (subst retry_loop.simps) (simp add: redirect_count_def max_redirects_def)
next
  case OpenFails
  then show ?thesis
    using assms(1) by (subst retry_loop.simps) (simp add: redirect_count_def max_redirects_def)
next
  case (Response status_code location reads)
  then show ?thesis
    using assms
    by (subst retry_loop.simps)
      (auto simp add: redirect_count_def max_redirects_def attempt_fails_def split: prod.splits)
qed

lemma retry_loop_success:
  assumes "k < max_retries" and "\<not> attempt_fails (net k)"
  shows "\<exists>lyric_content. retry_loop net url k = (attempt_events url k (net k), Some lyric_content)"
proof (cases "net k")
  case NoClient
  then show ?thesis using assms(2) by (simp add: attempt_fails_def)
next
  case OpenFails
  then show ?thesis using assms(2) by (simp add: attempt_fails_def)
next
  case (Response status_code location reads)
  then show ?thesis
    using assms
    by (subst retry_loop.simps)
      (auto simp add: redirect_count_def max_redirects_def attempt_fails_def split: prod.splits)
qed

lemma retry_loop_done:
  assumes "\<not> k < max_retries"
  shows "retry_loop net url k = ([], None)"
  using assms by (subst retry_loop.simps) simp

lemma retry_loop_events:
  "\<exists>m \<le> max_retries. fst (retry_loop net url k) =
       concat (map (\<lambda>j. attempt_events url j (net j)) [k ..< m])"
proof (induction "max_retries - k" arbitrary: k)
  case 0
  then have "retry_loop net url k = ([], None)"
    by (intro retry_loop_done) simp
  moreover have "[k ..< max_retries] = []"
    using 0 by simp
  ultimately have "fst (retry_loop net url k) =
      concat (map (\<lambda>j. attempt_events url j (net j)) [k ..< max_retries])"
    by (simp only: fst_conv list.map concat.simps)
  then show ?case
    by blast
next
  case (Suc d)
  then have k: "k < max_retries" by simp
  show ?case
  proof (cases "attempt_fails (net k)")
    case False
    from retry_loop_success [of k net url, OF k False]
    have "fst (retry_loop net url k) = concat (map (\<lambda>j. attempt_events url j (net j)) [k ..< Suc k])"
      by auto
    then show ?thesis
      using k by (intro exI [of _ "Suc k"]) simp
  next
    case True
    have "d = max_retries - (k + 1)"
      using Suc(2) by simp
    from Suc(1) [OF this] obtain m where m: "m \<le> max_retries"
      "fst (retry_loop net url (k + 1)) = concat (map (\<lambda>j. attempt_events url j (net j)) [k + 1 ..< m])"
      by blast
    have eq: "fst (retry_loop net url k) =
        attempt_events url k (net k) @ concat (map (\<lambda>j. attempt_events url j (net j)) [k + 1 ..< m])"
      using m(2) by (simp add: retry_loop_fail [of k net url, OF k True] after_events_def)
    show ?thesis
    proof (cases "k < m")
      case True
      then have "[k ..< m] = k # [k + 1 ..< m]"
        by (simp add: upt_rec)
      with eq m(1) show ?thesis
        by (intro exI [of _ m]) simp
    next
      case False
      then have e: "[k + 1 ..< m] = []" by simp
      have "fst (retry_loop net url k) = attempt_events url k (net k)"
        using eq unfolding e by simp
      then show ?thesis
        using k by (intro exI [of _ "Suc k"]) simp
    qed
  qed
qed


lemma DownloadLyrics_events:
  "fst (DownloadLyrics net lyric_url) =
     (if lyric_url = [] then [] else fst (retry_loop net lyric_url 0))"
  by (simp add: DownloadLyrics_def split: prod.splits option.splits)

lemma attempt_events_create:
  "filter (\<lambda>e. e = CreateHttp) (attempt_events url k a) = [CreateHttp]"
  by (cases a) simp_all

lemma attempt_events_open: "Open u \<in> set (attempt_events url k a) \<Longrightarrow> u = url"
  by (cases a) (auto split: if_splits)

lemma attempt_events_sleep: "Sleep n \<in> set (attempt_events url k a) \<Longrightarrow> n = 500 \<and> 0 < k"
  by (cases a) (auto split: if_splits)

lemma attempt_events_head:
  "attempt_events url k a =
     (if k > 0 then [Sleep 500, CreateHttp] else [CreateHttp]) @
     filter (\<lambda>e. e = Open url \<or> e = Close) (attempt_events url k a)"
  by (cases a) simp_all

lemma count_create_concat:
  "length (filter (\<lambda>e. e = CreateHttp) (concat (map (\<lambda>j. attempt_events url j (net j)) ks)))
     = length ks"
  by (induction ks) (simp_all add: attempt_events_create)

lemma redirect_fails:
  assumes "net k = Response status_code location reads"
    and "300 \<le> status_code"
  shows "attempt_fails (net k)"
  using assms by (simp add: attempt_fails_def)

text \<open>
  Claim C8. A lyric fetch makes at most 3 attempts, all of them requests to the original
  URL: its events are those of the attempts 0 to \<open>m - 1\<close> for some \<open>m\<close> up to 3, where
  every attempt but the first starts with a pause of 500 ms. An attempt answered with a
  status from 300 to 399 is a failed attempt: the connection is closed, the retry count
  goes up by one, and the loop goes on with the same URL; the \<^verbatim>\<open>Location\<close> of the answer
  is never requested.
\<close>

theorem DownloadLyrics_retries:
  "(\<exists>m \<le> 3. fst (DownloadLyrics net lyric_url) =
       concat (map (\<lambda>k. attempt_events lyric_url k (net k)) [0 ..< m])) \<and>
   length (filter (\<lambda>e. e = CreateHttp) (fst (DownloadLyrics net lyric_url))) \<le> 3 \<and>
   (\<forall>u. Open u \<in> set (fst (DownloadLyrics net lyric_url)) \<longrightarrow> u = lyric_url) \<and>
   (\<forall>n. Sleep n \<in> set (fst (DownloadLyrics net lyric_url)) \<longrightarrow> n = 500) \<and>
   (\<forall>k status_code location reads.
      k < 3 \<and> net k = Response status_code location reads \<and>
      300 \<le> status_code \<and> status_code < 400 \<longrightarrow>
        retry_loop net lyric_url k =
          after_events (attempt_events lyric_url k (net k)) (retry_loop net lyric_url (k + 1)) \<and>
        attempt_events lyric_url k (net k) =
          (if k > 0 then [Sleep 500] else []) @ [CreateHttp, Open lyric_url, Close])"
proof -
  obtain m where m: "m \<le> max_retries"
    "fst (retry_loop net lyric_url 0) = concat (map (\<lambda>k. attempt_events lyric_url k (net k)) [0 ..< m])"
    using retry_loop_events [of net lyric_url 0] by blast
  define m' where "m' = (if lyric_url = [] then 0 else m)"
  have m': "m' \<le> 3"
    "fst (DownloadLyrics net lyric_url) = concat (map (\<lambda>k. attempt_events lyric_url k (net k)) [0 ..< m'])"
    using m by (simp_all add: m'_def DownloadLyrics_events max_retries_def)
  have 1: "\<exists>m \<le> 3. fst (DownloadLyrics net lyric_url) =
       concat (map (\<lambda>k. attempt_events lyric_url k (net k)) [0 ..< m])"
    using m' by blast
  have 2: "length (filter (\<lambda>e. e = CreateHttp) (fst (DownloadLyrics net lyric_url))) \<le> 3"
    unfolding m'(2) count_create_concat using m'(1) by simp
  have 3: "u = lyric_url" if "Open u \<in> set (fst (DownloadLyrics net lyric_url))" for u
    using that unfolding m'(2) by (auto dest: attempt_events_open)
  have 4: "n = 500" if "Sleep n \<in> set (fst (DownloadLyrics net lyric_url))" for n
    using that unfolding m'(2) by (auto dest: attempt_events_sleep)
  have 5: "retry_loop net lyric_url k =
          after_events (attempt_events lyric_url k (net k)) (retry_loop net lyric_url (k + 1)) \<and>
        attempt_events lyric_url k (net k) =
          (if k > 0 then [Sleep 500] else []) @ [CreateHttp, Open lyric_url, Close]"
    if "k < 3" "net k = Response status_code location reads" "300 \<le> status_code" "status_code < 400"
    for k status_code location reads
  proof -
    have "k < max_retries"
      using that(1) by (simp add: max_retries_def)
    from retry_loop_fail [of k net lyric_url, OF this
        redirect_fails [of net k status_code location reads, OF that(2,3)]]
    show ?thesis
      by (simp add: that(2))
  qed
  show ?thesis
    using 1 2 3 4 5 by blast
qed

theorem DownloadLyrics_retries_witness:
  "DownloadLyrics always_redirected ''https://ai.daongoc.vn/radio/a.lrc'' =
     ([CreateHttp, Open ''https://ai.daongoc.vn/radio/a.lrc'', Close,
       Sleep 500, CreateHttp, Open ''https://ai.daongoc.vn/radio/a.lrc'', Close,
       Sleep 500, CreateHttp, Open ''https://ai.daongoc.vn/radio/a.lrc'', Close], None)"
proof -
  let ?u = "''https://ai.daongoc.vn/radio/a.lrc''"
  have r: "retry_loop always_redirected ?u k =
      after_events (attempt_events ?u k (always_redirected k)) (retry_loop always_redirected ?u (k + 1))"
    if "k < 3" for k
    using DownloadLyrics_retries [of always_redirected ?u] that
    by (simp add: always_redirected_def)
  have r3: "retry_loop always_redirected ?u (Suc (Suc (Suc 0))) = ([], None)"
    by (rule retry_loop_done) (simp add: max_retries_def)
  have r2: "retry_loop always_redirected ?u (Suc (Suc 0)) =
     ([Sleep 500, CreateHttp, Open ?u, Close], None)"
    using r [of "Suc (Suc 0)"] r3 by (simp add: after_events_def always_redirected_def)
  have r1: "retry_loop always_redirected ?u (Suc 0) =
     ([Sleep 500, CreateHttp, Open ?u, Close, Sleep 500, CreateHttp, Open ?u, Close], None)"
    using r [of "Suc 0"] r2 by (simp add: after_events_def always_redirected_def)
  have "retry_loop always_redirected ?u 0 =
     ([CreateHttp, Open ?u, Close, Sleep 500, CreateHttp, Open ?u, Close,
       Sleep 500, CreateHttp, Open ?u, Close], None)"
    using r [of 0] r1 by (simp add: after_events_def always_redirected_def)
  then show ?thesis
    by (simp add: DownloadLyrics_def)
qed

end
